theory Spec2Isabelle
  imports Main
begin

unbundle bit_operations_syntax

section \<open>Run-time failures and the store\<close>

text \<open>
  Every way the Go code can stop without a result is a value of \<open>panic\<close>:
  \<^item> \<open>NilDereference\<close>: a field of a nil pointer is read or written, or a method of a
    nil interface value is called;
  \<^item> \<open>IndexOutOfRange\<close>: a slice or array is indexed outside \<open>0 .. len - 1\<close>;
  \<^item> \<open>MakeSliceLen\<close>: \<^verbatim>\<open>make\<close> is asked for a slice of negative length;
  \<^item> \<open>InvalidArgument\<close>: \<^verbatim>\<open>rand.Intn\<close> or \<^verbatim>\<open>rand.Int63n\<close> is called with a
    bound \<open>n \<le> 0\<close>;
  \<^item> \<open>Fatal\<close>: \<^verbatim>\<open>log.Fatalf\<close> ends the process;
  \<^item> \<open>InvalidAddress\<close>: an address that the store does not hold. Go is garbage
    collected, so no pointer of a running program is in this state; the value makes
    the model total, and the theorems show that it is never produced.
  A function that can fail returns \<open>panic + 'a\<close>, with \<open>Inl\<close> for the failure.
\<close>

datatype panic =
    NilDereference
  | IndexOutOfRange
  | MakeSliceLen
  | InvalidArgument
  | Fatal
  | InvalidAddress

text \<open>
  Cells are heap objects and the program holds pointers to them: \<^verbatim>\<open>*Cell\<close> is an
  address or nil. The store is an arena: the cell at address \<open>a\<close> is \<open>h ! a\<close>, and
  taking the address of a new cell (\<^verbatim>\<open>&cell\<close>) appends it.
\<close>

type_synonym addr = nat
type_synonym ptr = "addr option"

text \<open>
  \<^verbatim>\<open>type Cell struct { Row, Column int64; North, South, East, West *Cell;
  links map[*Cell]bool }\<close> (cell.go). The key type of the link map is a parameter:
  it is \<open>ptr\<close> for the struct \<^verbatim>\<open>Cell\<close>, and an interface value for
  \<^verbatim>\<open>RectangleCell\<close>, whose fields are the same four pointers and a
  \<^verbatim>\<open>CellBase\<close> holding \<^verbatim>\<open>row\<close>, \<^verbatim>\<open>column\<close> and
  \<^verbatim>\<open>links map[Cell]bool\<close>. The map is the one \<^verbatim>\<open>make\<close> built in
  \<^verbatim>\<open>NewCell\<close>, the only place of the package that creates a cell.
  \<^verbatim>\<open>int64\<close> is \<open>int\<close>: the only arithmetic on coordinates is \<open>Row \<plusminus> 1\<close> and
  \<open>Column \<plusminus> 1\<close> on a cell of the grid and the loop counters below the grid's
  dimensions, none of which leaves the 64-bit range.
\<close>

record 'k Cell =
  Row :: int
  Column :: int
  North :: ptr
  South :: ptr
  East :: ptr
  West :: ptr
  links :: "'k \<rightharpoonup> bool"

type_synonym 'k heap = "'k Cell list"

definition NewCell :: "int \<Rightarrow> int \<Rightarrow> 'k Cell" where
  "NewCell row column =
     \<lparr>Row = row, Column = column, North = None, South = None, East = None, West = None,
      links = Map.empty\<rparr>"

definition deref :: "'k heap \<Rightarrow> ptr \<Rightarrow> panic + 'k Cell" where
  "deref h p =
     (case p of
        None \<Rightarrow> Inl NilDereference
      | Some a \<Rightarrow> if a < length h then Inr (h ! a) else Inl InvalidAddress)"

definition assign :: "'k heap \<Rightarrow> ptr \<Rightarrow> 'k Cell \<Rightarrow> panic + 'k heap" where
  "assign h p v =
     (case p of
        None \<Rightarrow> Inl NilDereference
      | Some a \<Rightarrow> if a < length h then Inr (h[a := v]) else Inl InvalidAddress)"

text \<open>Indexing a slice, \<^verbatim>\<open>xs[i]\<close>, with Go's bounds check.\<close>

definition index :: "'a list \<Rightarrow> int \<Rightarrow> panic + 'a" where
  "index xs i = (if 0 \<le> i \<and> i < int (length xs) then Inr (xs ! nat i) else Inl IndexOutOfRange)"

section \<open>Cell: the link relation (cell.go)\<close>

text \<open>\<^verbatim>\<open>func (c *Cell) LinkOneWay(neighbor *Cell) { c.links[neighbor] = true }\<close>\<close>

definition LinkOneWay :: "'k heap \<Rightarrow> ptr \<Rightarrow> 'k \<Rightarrow> panic + 'k heap" where
  "LinkOneWay h c neighbor =
     (case deref h c of
        Inl e \<Rightarrow> Inl e
      | Inr cell \<Rightarrow> assign h c (cell\<lparr>links := (links cell)(neighbor \<mapsto> True)\<rparr>))"

text \<open>\<^verbatim>\<open>func (c *Cell) Link(neighbor *Cell) { c.LinkOneWay(neighbor); neighbor.LinkOneWay(c) }\<close>\<close>

definition Link :: "ptr heap \<Rightarrow> ptr \<Rightarrow> ptr \<Rightarrow> panic + ptr heap" where
  "Link h c neighbor =
     (case LinkOneWay h c neighbor of
        Inl e \<Rightarrow> Inl e
      | Inr h1 \<Rightarrow> LinkOneWay h1 neighbor c)"



text \<open>
  \<^verbatim>\<open>func (c *Cell) Linked(neighbor *Cell) bool {
    if neighbor == nil { return false }
    linked, ok := c.links[neighbor]
    return ok && linked }\<close>
  The nil test comes before the receiver is touched. The same body serves
  \<^verbatim>\<open>CellBase.Linked\<close>, where nil is the nil interface value; both key types are
  options with \<open>None\<close> for nil.
\<close>

definition Linked :: "'x option heap \<Rightarrow> ptr \<Rightarrow> 'x option \<Rightarrow> panic + bool" where
  "Linked h c neighbor =
     (if neighbor = None then Inr False
      else case deref h c of
        Inl e \<Rightarrow> Inl e
      | Inr cell \<Rightarrow>
          (case links cell neighbor of
             None \<Rightarrow> Inr False
           | Some linked \<Rightarrow> Inr linked))"

text \<open>\<^verbatim>\<open>Neighbors\<close>: the non-nil ones of North, South, East, West, in this order.\<close>

definition Neighbors :: "'k heap \<Rightarrow> ptr \<Rightarrow> panic + ptr list" where
  "Neighbors h c =
     (case deref h c of
        Inl e \<Rightarrow> Inl e
      | Inr cell \<Rightarrow> Inr (filter (\<lambda>n. n \<noteq> None) [North cell, South cell, East cell, West cell]))"

section \<open>Grid (grid.go)\<close>

text \<open>
  \<^verbatim>\<open>type Grid struct { Rows, Columns int64; grid [][]*Cell }\<close>.
  \<^verbatim>\<open>RectangleGrid\<close> (README.md) has the same three fields, in lower case, and
  the same method bodies over \<^verbatim>\<open>*RectangleCell\<close>; the functions of this section,
  polymorphic in the key type of the link map, are both.
\<close>

record Grid =
  Rows :: int
  Columns :: int
  grid :: "ptr list list"

text \<open>
  \<^verbatim>\<open>func (g *Grid) At(row, column int64) *Cell {
    if row < 0 || column < 0 || row >= g.Rows || column >= g.Columns { return nil }
    return g.grid[row][column] }\<close>
\<close>

definition At :: "Grid \<Rightarrow> int \<Rightarrow> int \<Rightarrow> panic + ptr" where
  "At g row column =
     (if row < 0 \<or> column < 0 \<or> row \<ge> Rows g \<or> column \<ge> Columns g then Inr None
      else case index (grid g) row of
        Inl e \<Rightarrow> Inl e
      | Inr r \<Rightarrow> index r column)"

text \<open>
  \<^verbatim>\<open>prepareGrid\<close>, the inner loop
  \<^verbatim>\<open>for c := int64(0); c < g.Columns; c++ { cell := NewCell(r, c); g.grid[r][c] = &cell }\<close>.
  The new cell gets the next address of the store.
\<close>

function prepareGrid_columns ::
  "int \<Rightarrow> int \<Rightarrow> int \<Rightarrow> ptr list list \<Rightarrow> 'k heap \<Rightarrow> panic + (ptr list list \<times> 'k heap)" where
  "prepareGrid_columns columns r c gr h =
     (if c < columns then
        (case index gr r of
           Inl e \<Rightarrow> Inl e
         | Inr row \<Rightarrow>
             if 0 \<le> c \<and> c < int (length row)
             then prepareGrid_columns columns r (c + 1)
                    (gr[nat r := row[nat c := Some (length h)]]) (h @ [NewCell r c])
             else Inl IndexOutOfRange)
      else Inr (gr, h))"
  by pat_completeness auto
termination
  by (relation "measure (\<lambda>(columns, r, c, gr, h). nat (columns - c))") auto

text \<open>
  The outer loop
  \<^verbatim>\<open>for r := int64(0); r < g.Rows; r++ { g.grid[r] = make([]*Cell, g.Columns); ... }\<close>.
\<close>

function prepareGrid_rows ::
  "int \<Rightarrow> int \<Rightarrow> int \<Rightarrow> ptr list list \<Rightarrow> 'k heap \<Rightarrow> panic + (ptr list list \<times> 'k heap)" where
  "prepareGrid_rows rows columns r gr h =
     (if r < rows then
        (if columns < 0 then Inl MakeSliceLen
         else if \<not> (0 \<le> r \<and> r < int (length gr)) then Inl IndexOutOfRange
         else case prepareGrid_columns columns r 0 (gr[nat r := replicate (nat columns) None]) h of
           Inl e \<Rightarrow> Inl e
         | Inr (gr1, h1) \<Rightarrow> prepareGrid_rows rows columns (r + 1) gr1 h1)
      else Inr (gr, h))"
  by pat_completeness auto
termination
  by (relation "measure (\<lambda>(rows, columns, r, gr, h). nat (rows - r))") auto

definition prepareGrid :: "Grid \<Rightarrow> 'k heap \<Rightarrow> panic + (Grid \<times> 'k heap)" where
  "prepareGrid g h =
     (case prepareGrid_rows (Rows g) (Columns g) 0 (grid g) h of
        Inl e \<Rightarrow> Inl e
      | Inr (gr, h1) \<Rightarrow> Inr (g\<lparr>grid := gr\<rparr>, h1))"

text \<open>
  \<^verbatim>\<open>AllRows\<close> and \<^verbatim>\<open>AllCells\<close> send the rows, or the cells row by row, over a
  channel that the caller ranges over: the caller sees the sequence below, in this
  order.
\<close>

definition AllRows :: "Grid \<Rightarrow> ptr list list" where
  "AllRows g = grid g"

definition AllCells :: "Grid \<Rightarrow> ptr list" where
  "AllCells g = concat (grid g)"

text \<open>
  The body of the loop of \<^verbatim>\<open>configureCells\<close>:
  \<^verbatim>\<open>cell.North = g.At(cell.Row-1, cell.Column)
  cell.South = g.At(cell.Row+1, cell.Column)
  cell.West = g.At(cell.Row, cell.Column-1)
  cell.East = g.At(cell.Row, cell.Column+1)\<close>
\<close>

definition configureCell :: "Grid \<Rightarrow> 'k heap \<Rightarrow> ptr \<Rightarrow> panic + 'k heap" where
  "configureCell g h cell =
     (case deref h cell of
        Inl e \<Rightarrow> Inl e
      | Inr c \<Rightarrow>
     (case At g (Row c - 1) (Column c) of
        Inl e \<Rightarrow> Inl e
      | Inr n \<Rightarrow>
     (case At g (Row c + 1) (Column c) of
        Inl e \<Rightarrow> Inl e
      | Inr s \<Rightarrow>
     (case At g (Row c) (Column c - 1) of
        Inl e \<Rightarrow> Inl e
      | Inr w \<Rightarrow>
     (case At g (Row c) (Column c + 1) of
        Inl e \<Rightarrow> Inl e
      | Inr e \<Rightarrow> assign h cell (c\<lparr>North := n, South := s, West := w, East := e\<rparr>))))))"

fun configureCells_loop :: "Grid \<Rightarrow> ptr list \<Rightarrow> 'k heap \<Rightarrow> panic + 'k heap" where
  "configureCells_loop g [] h = Inr h"
| "configureCells_loop g (cell # rest) h =
     (case configureCell g h cell of
        Inl e \<Rightarrow> Inl e
      | Inr h1 \<Rightarrow> configureCells_loop g rest h1)"

definition configureCells :: "Grid \<Rightarrow> 'k heap \<Rightarrow> panic + 'k heap" where
  "configureCells g h = configureCells_loop g (AllCells g) h"

text \<open>
  \<^verbatim>\<open>func NewGrid(rows, columns int64) Grid\<close>: \<^verbatim>\<open>log.Fatalf\<close> on a negative
  dimension, then \<^verbatim>\<open>make([][]*Cell, rows)\<close> (a slice of \<open>rows\<close> nil slices),
  \<^verbatim>\<open>prepareGrid\<close> and \<^verbatim>\<open>configureCells\<close>. The store \<open>h\<close> is the one the
  program has when it calls \<^verbatim>\<open>NewGrid\<close>.
\<close>

definition NewGrid :: "int \<Rightarrow> int \<Rightarrow> 'k heap \<Rightarrow> panic + (Grid \<times> 'k heap)" where
  "NewGrid rows columns h =
     (if rows < 0 \<or> columns < 0 then Inl Fatal
      else case prepareGrid \<lparr>Rows = rows, Columns = columns, grid = replicate (nat rows) []\<rparr> h of
        Inl e \<Rightarrow> Inl e
      | Inr (g, h1) \<Rightarrow>
          (case configureCells g h1 of
             Inl e \<Rightarrow> Inl e
           | Inr h2 \<Rightarrow> Inr (g, h2)))"

section \<open>The random source\<close>

text \<open>
  \<^verbatim>\<open>math/rand\<close> is outside the repository. A source is the sequence of its raw
  outcomes, \<open>src k\<close> for draw number \<open>k\<close>, and the state is the number of draws made.
  \<^verbatim>\<open>rand.Intn(n)\<close> and \<^verbatim>\<open>rand.Int63n(n)\<close> panic when \<open>n \<le> 0\<close> and return a
  value of \<open>[0, n)\<close> otherwise; every such value is \<open>src k mod n\<close> for some source,
  so a theorem for all sources holds for all outcomes. Probabilities are not
  modelled.
\<close>

type_synonym rand = "nat \<Rightarrow> nat"

definition Intn :: "rand \<Rightarrow> nat \<Rightarrow> int \<Rightarrow> panic + (int \<times> nat)" where
  "Intn src k n = (if n \<le> 0 then Inl InvalidArgument else Inr (int (src k) mod n, Suc k))"

definition Int63n :: "rand \<Rightarrow> nat \<Rightarrow> int \<Rightarrow> panic + (int \<times> nat)" where
  "Int63n src k n = (if n \<le> 0 then Inl InvalidArgument else Inr (int (src k) mod n, Suc k))"

text \<open>
  \<^verbatim>\<open>func (g *Grid) RandomCell() *Cell {
    rand.Seed(time.Now().UnixNano())
    return g.At(rand.Int63n(g.Rows), rand.Int63n(g.Columns)) }\<close>
  \<open>seeded\<close> is the source as the clock seeds it; the draws start at 0, the row
  first. The result is the cell and the number of draws made.
\<close>

definition RandomCell :: "rand \<Rightarrow> Grid \<Rightarrow> panic + (ptr \<times> nat)" where
  "RandomCell seeded g =
     (case Int63n seeded 0 (Rows g) of
        Inl e \<Rightarrow> Inl e
      | Inr (row, k1) \<Rightarrow>
     (case Int63n seeded k1 (Columns g) of
        Inl e \<Rightarrow> Inl e
      | Inr (column, k2) \<Rightarrow>
     (case At g row column of
        Inl e \<Rightarrow> Inl e
      | Inr p \<Rightarrow> Inr (p, k2))))"

section \<open>Binary Tree\<close>

text \<open>
  The body of the loop of \<^verbatim>\<open>BinaryTree\<close>, over the struct \<^verbatim>\<open>Cell\<close>:
  \<^verbatim>\<open>neighbors := []*Cell{}
  if (cell.North != nil) { neighbors = append(neighbors, cell.North) }
  if (cell.East != nil) { neighbors = append(neighbors, cell.East) }
  if (len(neighbors) > 0) { cell.Link(neighbors[rand.Intn(len(neighbors))]) }\<close>
\<close>

definition BinaryTree_cell :: "rand \<Rightarrow> nat \<times> ptr heap \<Rightarrow> ptr \<Rightarrow> panic + (nat \<times> ptr heap)" where
  "BinaryTree_cell src s cell =
     (case s of (k, h) \<Rightarrow>
     (case deref h cell of
        Inl e \<Rightarrow> Inl e
      | Inr c \<Rightarrow>
          let neighbors = [];
              neighbors = (if North c \<noteq> None then neighbors @ [North c] else neighbors);
              neighbors = (if East c \<noteq> None then neighbors @ [East c] else neighbors)
          in
          if length neighbors > 0 then
            (case Intn src k (int (length neighbors)) of
               Inl e \<Rightarrow> Inl e
             | Inr (i, k1) \<Rightarrow>
            (case index neighbors i of
               Inl e \<Rightarrow> Inl e
             | Inr n \<Rightarrow>
            (case Link h cell n of
               Inl e \<Rightarrow> Inl e
             | Inr h1 \<Rightarrow> Inr (k1, h1))))
          else Inr (k, h)))"

fun BinaryTree_loop :: "rand \<Rightarrow> nat \<times> ptr heap \<Rightarrow> ptr list \<Rightarrow> panic + (nat \<times> ptr heap)" where
  "BinaryTree_loop src s [] = Inr s"
| "BinaryTree_loop src s (cell # rest) =
     (case BinaryTree_cell src s cell of
        Inl e \<Rightarrow> Inl e
      | Inr s1 \<Rightarrow> BinaryTree_loop src s1 rest)"

text \<open>\<^verbatim>\<open>func BinaryTree(g *Grid) { for cell := range(g.AllCells()) { ... } }\<close>\<close>

definition BinaryTree :: "rand \<Rightarrow> nat \<Rightarrow> Grid \<Rightarrow> ptr heap \<Rightarrow> panic + (nat \<times> ptr heap)" where
  "BinaryTree src k g h = BinaryTree_loop src (k, h) (AllCells g)"

section \<open>The interface variant of the cell\<close>

text \<open>
  \<^verbatim>\<open>Sidewinder\<close> is written over \<^verbatim>\<open>*RectangleCell\<close>, whose link map is keyed by
  values of the interface \<^verbatim>\<open>Cell\<close>. A non-nil interface value is a dynamic type
  with a pointer of that type; two implementations exist, \<^verbatim>\<open>*RectangleCell\<close> and
  \<^verbatim>\<open>*CellBase\<close>. Two interface values are equal when type and pointer are. The
  \<^verbatim>\<open>CellBase\<close> of a \<^verbatim>\<open>RectangleCell\<close> is its field \<^verbatim>\<open>base\<close>, so a pointer to
  it is named by the address of the cell that holds it.
\<close>

datatype cellI = RectangleCellP ptr | CellBaseP ptr

type_synonym CellI = "cellI option"

text \<open>Passing a \<^verbatim>\<open>*RectangleCell\<close> where a \<^verbatim>\<open>Cell\<close> is expected.\<close>

definition toCell :: "ptr \<Rightarrow> CellI" where
  "toCell p = Some (RectangleCellP p)"

text \<open>
  \<^verbatim>\<open>neighbor.LinkOneWay(c)\<close> on an interface value: the call goes to the method of
  the dynamic type. \<^verbatim>\<open>(*RectangleCell).LinkOneWay\<close> is
  \<^verbatim>\<open>c.base.LinkOneWay(neighbor)\<close>, and \<^verbatim>\<open>(*CellBase).LinkOneWay\<close> is
  \<^verbatim>\<open>c.links[neighbor] = true\<close>.
\<close>

definition Cell_LinkOneWay :: "CellI heap \<Rightarrow> CellI \<Rightarrow> CellI \<Rightarrow> panic + CellI heap" where
  "Cell_LinkOneWay h recv neighbor =
     (case recv of
        None \<Rightarrow> Inl NilDereference
      | Some (RectangleCellP p) \<Rightarrow> LinkOneWay h p neighbor
      | Some (CellBaseP p) \<Rightarrow> LinkOneWay h p neighbor)"

text \<open>
  \<^verbatim>\<open>func (c *CellBase) Link(neighbor Cell) { c.LinkOneWay(neighbor); neighbor.LinkOneWay(c) }\<close>
  The receiver \<open>c\<close> is a \<^verbatim>\<open>*CellBase\<close>, and this is the key the neighbour stores.
\<close>

definition CellBase_Link :: "CellI heap \<Rightarrow> ptr \<Rightarrow> CellI \<Rightarrow> panic + CellI heap" where
  "CellBase_Link h c neighbor =
     (case LinkOneWay h c neighbor of
        Inl e \<Rightarrow> Inl e
      | Inr h1 \<Rightarrow> Cell_LinkOneWay h1 neighbor (Some (CellBaseP c)))"

text \<open>\<^verbatim>\<open>func (c *RectangleCell) Link(neighbor Cell) { c.base.Link(neighbor) }\<close>\<close>

definition RectangleCell_Link :: "CellI heap \<Rightarrow> ptr \<Rightarrow> CellI \<Rightarrow> panic + CellI heap" where
  "RectangleCell_Link h c neighbor = CellBase_Link h c neighbor"

text \<open>\<^verbatim>\<open>func (c *RectangleCell) Linked(neighbor Cell) bool { return c.base.Linked(neighbor) }\<close>\<close>

definition RectangleCell_Linked :: "CellI heap \<Rightarrow> ptr \<Rightarrow> CellI \<Rightarrow> panic + bool" where
  "RectangleCell_Linked h c neighbor =
     (case c of
        None \<Rightarrow> Inl NilDereference
      | Some a \<Rightarrow> Linked h c neighbor)"

section \<open>Sidewinder (sidewinder.go)\<close>

text \<open>
  \<^verbatim>\<open>atEasternBoundary := (cell.East == nil)
  atNorthernBoundary := (cell.North == nil)
  shouldCloseOut := atEasternBoundary || (!atNorthernBoundary && rand.Intn(2) == 0)\<close>
  \<^verbatim>\<open>||\<close> and \<^verbatim>\<open>&&\<close> evaluate their right operand only when the left one does
  not decide. The result is the decision and the number of draws made so far.
\<close>

definition shouldCloseOut :: "rand \<Rightarrow> nat \<Rightarrow> 'k Cell \<Rightarrow> panic + (bool \<times> nat)" where
  "shouldCloseOut src k cell =
     (let atEasternBoundary = (East cell = None);
          atNorthernBoundary = (North cell = None)
      in
      if atEasternBoundary then Inr (True, k)
      else if atNorthernBoundary then Inr (False, k)
      else case Intn src k 2 of
        Inl e \<Rightarrow> Inl e
      | Inr (v, k1) \<Rightarrow> Inr (v = 0, k1))"

text \<open>
  The body of the inner loop. The state is the number of draws made, the slice
  \<^verbatim>\<open>run\<close> and the store:
  \<^verbatim>\<open>run = append(run, cell)
  ...
  if shouldCloseOut {
    member := run[rand.Intn(len(run))]
    if (member.North != nil) { member.Link(member.North) }
  } else {
    cell.Link(cell.East)
  }\<close>
  No statement of the body assigns to \<^verbatim>\<open>run\<close> but the \<^verbatim>\<open>append\<close>.
\<close>

definition Sidewinder_cell ::
  "rand \<Rightarrow> nat \<times> ptr list \<times> CellI heap \<Rightarrow> ptr \<Rightarrow> panic + (nat \<times> ptr list \<times> CellI heap)" where
  "Sidewinder_cell src s cell =
     (case s of (k, run0, h) \<Rightarrow>
      let run = run0 @ [cell] in
     (case deref h cell of
        Inl e \<Rightarrow> Inl e
      | Inr c \<Rightarrow>
     (case shouldCloseOut src k c of
        Inl e \<Rightarrow> Inl e
      | Inr (close, k1) \<Rightarrow>
          if close then
            (case Intn src k1 (int (length run)) of
               Inl e \<Rightarrow> Inl e
             | Inr (i, k2) \<Rightarrow>
            (case index run i of
               Inl e \<Rightarrow> Inl e
             | Inr member \<Rightarrow>
            (case deref h member of
               Inl e \<Rightarrow> Inl e
             | Inr m \<Rightarrow>
                 if North m \<noteq> None then
                   (case RectangleCell_Link h member (toCell (North m)) of
                      Inl e \<Rightarrow> Inl e
                    | Inr h1 \<Rightarrow> Inr (k2, run, h1))
                 else Inr (k2, run, h))))
          else
            (case RectangleCell_Link h cell (toCell (East c)) of
               Inl e \<Rightarrow> Inl e
             | Inr h1 \<Rightarrow> Inr (k1, run, h1)))))"

text \<open>\<^verbatim>\<open>for _, cell := range(row) { ... }\<close>\<close>

fun Sidewinder_cells ::
  "rand \<Rightarrow> nat \<times> ptr list \<times> CellI heap \<Rightarrow> ptr list \<Rightarrow> panic + (nat \<times> ptr list \<times> CellI heap)" where
  "Sidewinder_cells src s [] = Inr s"
| "Sidewinder_cells src s (cell # rest) =
     (case Sidewinder_cell src s cell of
        Inl e \<Rightarrow> Inl e
      | Inr s1 \<Rightarrow> Sidewinder_cells src s1 rest)"

text \<open>\<^verbatim>\<open>for row := range(g.AllRows()) { run := []*RectangleCell{}; ... }\<close>\<close>

fun Sidewinder_rows :: "rand \<Rightarrow> nat \<times> CellI heap \<Rightarrow> ptr list list \<Rightarrow> panic + (nat \<times> CellI heap)" where
  "Sidewinder_rows src s [] = Inr s"
| "Sidewinder_rows src s (row # rest) =
     (case s of (k, h) \<Rightarrow>
     (case Sidewinder_cells src (k, [], h) row of
        Inl e \<Rightarrow> Inl e
      | Inr (k1, run, h1) \<Rightarrow> Sidewinder_rows src (k1, h1) rest))"

definition Sidewinder :: "rand \<Rightarrow> nat \<Rightarrow> Grid \<Rightarrow> CellI heap \<Rightarrow> panic + (nat \<times> CellI heap)" where
  "Sidewinder src k g h = Sidewinder_rows src (k, h) (AllRows g)"

section \<open>The corner glyph (README.md)\<close>

text \<open>A \<^verbatim>\<open>rune\<close> is a code point. The constants are the source's.\<close>

type_synonym rune = int

definition horizontal :: rune where "horizontal = 0x2500"
definition vertical :: rune where "vertical = 0x2502"
definition cornerDownRight :: rune where "cornerDownRight = 0x250c"
definition cornerDownLeft :: rune where "cornerDownLeft = 0x2510"
definition cornerUpRight :: rune where "cornerUpRight = 0x2514"
definition cornerUpLeft :: rune where "cornerUpLeft = 0x2518"
definition verticalRight :: rune where "verticalRight = 0x251c"
definition verticalLeft :: rune where "verticalLeft = 0x2524"
definition horizontalDown :: rune where "horizontalDown = 0x252c"
definition horizontalUp :: rune where "horizontalUp = 0x2534"
definition intersection :: rune where "intersection = 0x253c"

text \<open>The blank, \<^verbatim>\<open>' '\<close>, is the first entry of the table; the source gives it no name.\<close>

definition blank :: rune where "blank = 0x20"

text \<open>The table \<^verbatim>\<open>glyphs := [16]rune{...}\<close> of \<^verbatim>\<open>cornerGlyph\<close>, in the source's order.\<close>

definition glyphs :: "rune list" where
  "glyphs =
     [blank, vertical, vertical, vertical,
      horizontal, cornerUpLeft, cornerDownLeft, verticalLeft,
      horizontal, cornerUpRight, cornerDownRight, verticalRight,
      horizontal, horizontalUp, horizontalDown, intersection]"

text \<open>
  \<^verbatim>\<open>idx := 0
  if up { idx |= 1 }; if down { idx |= 2 }; if left { idx |= 4 }; if right { idx |= 8 }\<close>
\<close>

definition cornerGlyph_idx :: "bool \<Rightarrow> bool \<Rightarrow> bool \<Rightarrow> bool \<Rightarrow> int" where
  "cornerGlyph_idx up left down right =
     (let idx = 0;
          idx = (if up then idx OR 1 else idx);
          idx = (if down then idx OR 2 else idx);
          idx = (if left then idx OR 4 else idx);
          idx = (if right then idx OR 8 else idx)
      in idx)"

definition cornerGlyph :: "bool \<Rightarrow> bool \<Rightarrow> bool \<Rightarrow> bool \<Rightarrow> panic + rune" where
  "cornerGlyph up left down right = index glyphs (cornerGlyph_idx up left down right)"

section \<open>The closed form of a new grid\<close>

text \<open>
  What \<^verbatim>\<open>NewGrid\<close> builds on a store of \<open>b\<close> cells, written without loops: the cell
  of row \<open>r\<close> and column \<open>c\<close> gets the address \<open>b + r * C + c\<close>. These definitions
  serve the proofs; \<open>NewGrid_result\<close> shows that the code computes them.
\<close>

definition grid_ptr :: "nat \<Rightarrow> int \<Rightarrow> int \<Rightarrow> int \<Rightarrow> int \<Rightarrow> ptr" where
  "grid_ptr b R C r c =
     (if 0 \<le> r \<and> r < R \<and> 0 \<le> c \<and> c < C then Some (b + nat r * nat C + nat c) else None)"

definition grid_of :: "nat \<Rightarrow> int \<Rightarrow> int \<Rightarrow> Grid" where
  "grid_of b R C =
     \<lparr>Rows = R, Columns = C,
      grid = map (\<lambda>i. map (\<lambda>j. Some (b + i * nat C + j)) [0..<nat C]) [0..<nat R]\<rparr>"

definition cell_of :: "nat \<Rightarrow> int \<Rightarrow> int \<Rightarrow> int \<Rightarrow> int \<Rightarrow> 'k Cell" where
  "cell_of b R C r c =
     \<lparr>Row = r, Column = c,
      North = grid_ptr b R C (r - 1) c, South = grid_ptr b R C (r + 1) c,
      East = grid_ptr b R C r (c + 1), West = grid_ptr b R C r (c - 1),
      links = Map.empty\<rparr>"

definition cells_of :: "nat \<Rightarrow> int \<Rightarrow> int \<Rightarrow> 'k Cell list" where
  "cells_of b R C =
     concat (map (\<lambda>i. map (\<lambda>j. cell_of b R C (int i) (int j)) [0..<nat C]) [0..<nat R])"

definition configured :: "(int \<Rightarrow> int \<Rightarrow> ptr) \<Rightarrow> 'k Cell \<Rightarrow> 'k Cell" where
  "configured nb c =
     c\<lparr>North := nb (Row c - 1) (Column c), South := nb (Row c + 1) (Column c),
       West := nb (Row c) (Column c - 1), East := nb (Row c) (Column c + 1)\<rparr>"

text \<open>
  Go has no dangling pointers: a non-nil pointer names a live object. In the arena
  this is a property of the store, that every neighbour pointer held by a cell is
  an address of the store.
\<close>

definition closed_store :: "'k heap \<Rightarrow> bool" where
  "closed_store h \<longleftrightarrow>
     (\<forall>c\<in>set h. \<forall>p\<in>{North c, South c, East c, West c}. \<forall>a. p = Some a \<longrightarrow> a < length h)"

text \<open>
  The effect of linking on the store, for the proofs about the two generators:
  \<open>frame h h'\<close> says that \<open>h'\<close> has the cells of \<open>h\<close> with the same coordinates and
  neighbours and with every link of \<open>h\<close>; \<open>has_NE h p\<close> that the cell has a North or
  an East neighbour; \<open>cell_ok h p\<close> that \<open>p\<close> is a cell of the store whose North and
  East neighbours are cells of the store.
\<close>

definition frame :: "'k heap \<Rightarrow> 'k heap \<Rightarrow> bool" where
  "frame h h' \<longleftrightarrow>
     length h' = length h \<and>
     (\<forall>a<length h. \<exists>l. h' ! a = (h ! a)\<lparr>links := l\<rparr> \<and>
        (\<forall>k. links (h ! a) k = Some True \<longrightarrow> l k = Some True))"

definition has_NE :: "'k heap \<Rightarrow> ptr \<Rightarrow> bool" where
  "has_NE h p = (case p of None \<Rightarrow> False | Some a \<Rightarrow> North (h ! a) \<noteq> None \<or> East (h ! a) \<noteq> None)"

definition cell_ok :: "'k heap \<Rightarrow> ptr \<Rightarrow> bool" where
  "cell_ok h p \<longleftrightarrow>
     (\<exists>a. p = Some a \<and> a < length h \<and>
        (\<forall>n. North (h ! a) = Some n \<or> East (h ! a) = Some n \<longrightarrow> n < length h))"

section \<open>What NewGrid computes\<close>

declare prepareGrid_columns.simps [simp del] prepareGrid_rows.simps [simp del]

lemma prepareGrid_columns_result:
  assumes "0 \<le> r" "nat r < length gr" "0 \<le> c" "c \<le> C" "length (gr ! nat r) = nat C"
  shows "prepareGrid_columns C r c gr h =
     Inr (gr[nat r := take (nat c) (gr ! nat r) @ map (\<lambda>j. Some (length h + j)) [0..<nat (C - c)]],
          h @ map (\<lambda>j. NewCell r (c + int j)) [0..<nat (C - c)])"
  using assms
proof (induction "nat (C - c)" arbitrary: c gr h)
  case 0
  then have "c = C" by simp
  with 0 show ?case
    by (simp add: prepareGrid_columns.simps[of C r C])
next
  case (Suc n)
  then have lt: "c < C" and n: "n = nat (C - (c + 1))" by linarith+
  let ?row = "gr ! nat r"
  let ?gr' = "gr[nat r := ?row[nat c := Some (length h)]]"
  let ?h' = "h @ [NewCell r c]"
  have idx: "index gr r = Inr ?row" using Suc.prems by (simp add: index_def)
  have step: "prepareGrid_columns C r c gr h = prepareGrid_columns C r (c + 1) ?gr' ?h'"
    using lt idx Suc.prems by (subst prepareGrid_columns.simps) simp
  have ih: "prepareGrid_columns C r (c + 1) ?gr' ?h' =
     Inr (?gr'[nat r := take (nat (c + 1)) (?gr' ! nat r) @ map (\<lambda>j. Some (length ?h' + j)) [0..<nat (C - (c + 1))]],
          ?h' @ map (\<lambda>j. NewCell r (c + 1 + int j)) [0..<nat (C - (c + 1))])"
    using Suc.prems lt by (intro Suc.hyps(1)[OF n]) auto
  have nc: "nat (c + 1) = Suc (nat c)" using Suc.prems by simp
  have len: "nat c < length ?row" using Suc.prems lt by simp
  have tk: "take (nat (c + 1)) (?gr' ! nat r) = take (nat c) ?row @ [Some (length h)]"
    using Suc.prems len by (simp add: nc take_Suc_conv_app_nth)
  have cnt: "nat (C - c) = Suc (nat (C - (c + 1)))" using lt by simp
  show ?case
    unfolding step ih tk cnt
    by (simp add: map_upt_Suc add.assoc del: upt_Suc)
qed

lemma prepareGrid_rows_result:
  assumes "0 \<le> r" "r \<le> R" "length gr = nat R" "0 \<le> C"
  shows "prepareGrid_rows R C r gr h =
     Inr (take (nat r) gr @
            map (\<lambda>i. map (\<lambda>j. Some (length h + i * nat C + j)) [0..<nat C]) [0..<nat (R - r)],
          h @ concat (map (\<lambda>i. map (\<lambda>j. NewCell (r + int i) (int j)) [0..<nat C]) [0..<nat (R - r)]))"
  using assms
proof (induction "nat (R - r)" arbitrary: r gr h)
  case 0
  then have "r = R" by simp
  with 0 show ?case
    by (simp add: prepareGrid_rows.simps[of R C R])
next
  case (Suc n)
  then have lt: "r < R" and n: "n = nat (R - (r + 1))" by linarith+
  let ?gr0 = "gr[nat r := replicate (nat C) None]"
  let ?row = "map (\<lambda>j. Some (length h + j)) [0..<nat C]"
  let ?gr1 = "gr[nat r := ?row]"
  let ?h1 = "h @ map (\<lambda>j. NewCell r (int j)) [0..<nat C]"
  have rlen: "nat r < length gr" using Suc.prems lt by simp
  have inner: "prepareGrid_columns C r 0 ?gr0 h = Inr (?gr1, ?h1)"
    using Suc.prems rlen by (subst prepareGrid_columns_result) simp_all
  have step: "prepareGrid_rows R C r gr h = prepareGrid_rows R C (r + 1) ?gr1 ?h1"
    using lt Suc.prems rlen by (subst prepareGrid_rows.simps) (simp add: inner)
  have ih: "prepareGrid_rows R C (r + 1) ?gr1 ?h1 =
     Inr (take (nat (r + 1)) ?gr1 @
            map (\<lambda>i. map (\<lambda>j. Some (length ?h1 + i * nat C + j)) [0..<nat C]) [0..<nat (R - (r + 1))],
          ?h1 @ concat (map (\<lambda>i. map (\<lambda>j. NewCell (r + 1 + int i) (int j)) [0..<nat C]) [0..<nat (R - (r + 1))]))"
    using Suc.prems lt by (intro Suc.hyps(1)[OF n]) auto
  have nr: "nat (r + 1) = Suc (nat r)" using Suc.prems by simp
  have tk: "take (nat (r + 1)) ?gr1 = take (nat r) gr @ [?row]"
    using rlen by (simp add: nr take_Suc_conv_app_nth)
  have cnt: "nat (R - r) = Suc (nat (R - (r + 1)))" using lt by simp
  show ?case
    unfolding step ih tk cnt
    by (simp add: map_upt_Suc add.assoc add.commute add.left_commute del: upt_Suc)
qed


lemma length_concat_rows:
  "length (concat (map (\<lambda>i. map (f i) [0..<m]) [0..<n])) = n * m"
  by (induction n) simp_all

lemma nth_concat_rows:
  "i < n \<Longrightarrow> j < m \<Longrightarrow> concat (map (\<lambda>i. map (f i) [0..<m]) [0..<n]) ! (i * m + j) = f i j"
proof (induction n)
  case 0
  then show ?case by simp
next
  case (Suc n)
  show ?case
  proof (cases "i < n")
    case True
    then have "i * m + j < n * m"
      using Suc.prems(2) by (metis add.commute add_less_cancel_left less_le_trans mult_Suc mult_le_mono1 Suc_leI)
    with True Suc show ?thesis
      by (simp add: nth_append length_concat_rows)
  next
    case False
    with Suc.prems have "i = n" by simp
    with Suc.prems show ?thesis
      by (simp add: nth_append length_concat_rows)
  qed
qed

lemma prepareGrid_result:
  assumes "0 \<le> R" "0 \<le> C"
  shows "prepareGrid \<lparr>Rows = R, Columns = C, grid = replicate (nat R) []\<rparr> h =
     Inr (grid_of (length h) R C,
          h @ concat (map (\<lambda>i. map (\<lambda>j. NewCell (int i) (int j)) [0..<nat C]) [0..<nat R]))"
  using assms
  by (simp add: prepareGrid_def prepareGrid_rows_result grid_of_def)

lemma At_grid_of: "At (grid_of b R C) r c = Inr (grid_ptr b R C r c)"
  by (auto simp: At_def grid_of_def grid_ptr_def index_def)

lemma in_AllCells_grid_of:
  "Some a \<in> set (AllCells (grid_of b R C)) \<longleftrightarrow> b \<le> a \<and> a < b + nat R * nat C"
proof
  assume "Some a \<in> set (AllCells (grid_of b R C))"
  then obtain i j where ij: "i < nat R" "j < nat C" "a = b + i * nat C + j"
    by (auto simp: AllCells_def grid_of_def)
  then have "i * nat C + j < nat R * nat C"
    by (metis add.commute add_less_cancel_left less_le_trans mult_Suc mult_le_mono1 Suc_leI)
  with ij show "b \<le> a \<and> a < b + nat R * nat C" by simp
next
  assume a: "b \<le> a \<and> a < b + nat R * nat C"
  then have pos: "0 < nat C" by (cases "nat C") auto
  let ?i = "(a - b) div nat C" and ?j = "(a - b) mod nat C"
  have "a - b < nat R * nat C" using a by linarith
  then have "?i < nat R" by (rule less_mult_imp_div_less)
  moreover have "?j < nat C" using pos by simp
  moreover have "a = b + ?i * nat C + ?j" using a by simp
  ultimately show "Some a \<in> set (AllCells (grid_of b R C))"
    by (force simp: AllCells_def grid_of_def)
qed

lemma None_notin_AllCells_grid_of: "None \<notin> set (AllCells (grid_of b R C))"
  by (auto simp: AllCells_def grid_of_def)


lemma configured_idem: "configured nb (configured nb c) = configured nb c"
  by (simp add: configured_def)

lemma configureCell_result:
  assumes "\<And>r c. At g r c = Inr (nb r c)" "a < length h"
  shows "configureCell g h (Some a) = Inr (h[a := configured nb (h ! a)])"
  using assms by (simp add: configureCell_def deref_def assign_def configured_def)

lemma configureCells_loop_result:
  assumes "\<And>r c. At g r c = Inr (nb r c)" "\<forall>p\<in>set cells. \<exists>a. p = Some a \<and> a < length h"
  shows "configureCells_loop g cells h =
     Inr (map (\<lambda>a. if Some a \<in> set cells then configured nb (h ! a) else h ! a) [0..<length h])"
  using assms(2)
proof (induction cells arbitrary: h)
  case Nil
  show ?case by (simp add: map_nth)
next
  case (Cons p rest)
  then obtain a where a: "p = Some a" "a < length h" by auto
  let ?h1 = "h[a := configured nb (h ! a)]"
  have step: "configureCell g h p = Inr ?h1"
    using a assms(1) by (simp add: configureCell_result)
  have ih: "configureCells_loop g rest ?h1 =
     Inr (map (\<lambda>a. if Some a \<in> set rest then configured nb (?h1 ! a) else ?h1 ! a) [0..<length ?h1])"
    using Cons.prems by (intro Cons.IH) auto
  have "map (\<lambda>a. if Some a \<in> set rest then configured nb (?h1 ! a) else ?h1 ! a) [0..<length ?h1] =
        map (\<lambda>a. if Some a \<in> set (p # rest) then configured nb (h ! a) else h ! a) [0..<length h]"
    using a by (auto simp: nth_list_update configured_idem)
  with step ih show ?case by simp
qed

lemma configured_NewCell:
  "configured (grid_ptr b R C) (NewCell r c) = cell_of b R C r c"
  by (simp add: configured_def NewCell_def cell_of_def)

lemma NewGrid_result:
  assumes "0 \<le> R" "0 \<le> C"
  shows "NewGrid R C h = Inr (grid_of (length h) R C, h @ cells_of (length h) R C)"
proof -
  let ?b = "length h"
  let ?g = "grid_of ?b R C"
  let ?new = "concat (map (\<lambda>i. map (\<lambda>j. NewCell (int i) (int j)) [0..<nat C]) [0..<nat R])"
  let ?h1 = "h @ ?new"
  have len1: "length ?h1 = ?b + nat R * nat C"
    by (simp add: length_concat_rows)
  have valid: "\<forall>p\<in>set (AllCells ?g). \<exists>a. p = Some a \<and> a < length ?h1"
  proof
    fix p assume p: "p \<in> set (AllCells ?g)"
    then have "p \<noteq> None" using None_notin_AllCells_grid_of[of ?b R C] by metis
    then obtain a where "p = Some a" by blast
    with p show "\<exists>a. p = Some a \<and> a < length ?h1"
      using in_AllCells_grid_of[of _ ?b R C] len1 by auto
  qed
  have conf: "configureCells ?g ?h1 =
     Inr (map (\<lambda>a. if Some a \<in> set (AllCells ?g) then configured (grid_ptr ?b R C) (?h1 ! a) else ?h1 ! a)
            [0..<length ?h1])"
    unfolding configureCells_def
    by (rule configureCells_loop_result[OF At_grid_of valid])
  have eq: "map (\<lambda>a. if Some a \<in> set (AllCells ?g) then configured (grid_ptr ?b R C) (?h1 ! a) else ?h1 ! a)
            [0..<length ?h1] = h @ cells_of ?b R C"
  proof (rule nth_equalityI)
    show "length (map (\<lambda>a. if Some a \<in> set (AllCells ?g) then configured (grid_ptr ?b R C) (?h1 ! a) else ?h1 ! a)
            [0..<length ?h1]) = length (h @ cells_of ?b R C)"
      by (simp add: cells_of_def length_concat_rows)
  next
    fix a
    assume "a < length (map (\<lambda>a. if Some a \<in> set (AllCells ?g) then configured (grid_ptr ?b R C) (?h1 ! a) else ?h1 ! a)
            [0..<length ?h1])"
    then have a: "a < ?b + nat R * nat C" using len1 by simp
    show "map (\<lambda>a. if Some a \<in> set (AllCells ?g) then configured (grid_ptr ?b R C) (?h1 ! a) else ?h1 ! a)
            [0..<length ?h1] ! a = (h @ cells_of ?b R C) ! a"
    proof (cases "a < ?b")
      case True
      then show ?thesis using a len1
        by (simp add: in_AllCells_grid_of nth_append del: length_append)
    next
      case False
      then have pos: "0 < nat C" using a by (cases "nat C") auto
      let ?i = "(a - ?b) div nat C" and ?j = "(a - ?b) mod nat C"
      have "a - ?b < nat R * nat C" using a False by linarith
      then have i: "?i < nat R" by (rule less_mult_imp_div_less)
      have j: "?j < nat C" using pos by simp
      have ab: "a - ?b = ?i * nat C + ?j" by simp
      have new: "?new ! (a - ?b) = NewCell (int ?i) (int ?j)"
        by (subst ab) (rule nth_concat_rows[OF i j])
      have old: "cells_of ?b R C ! (a - ?b) = cell_of ?b R C (int ?i) (int ?j)"
        unfolding cells_of_def by (subst ab) (rule nth_concat_rows[OF i j])
      have lhs: "map (\<lambda>a. if Some a \<in> set (AllCells ?g) then configured (grid_ptr ?b R C) (?h1 ! a) else ?h1 ! a)
            [0..<length ?h1] ! a = configured (grid_ptr ?b R C) (?new ! (a - ?b))"
        using a False len1 by (simp add: in_AllCells_grid_of nth_append del: length_append)
      have rhs: "(h @ cells_of ?b R C) ! a = cells_of ?b R C ! (a - ?b)"
        using False by (simp add: nth_append)
      show ?thesis
        unfolding lhs rhs new old configured_NewCell ..
    qed
  qed
  have ng: "NewGrid R C h =
      (case configureCells ?g ?h1 of Inl e \<Rightarrow> Inl e | Inr h2 \<Rightarrow> Inr (?g, h2))"
    using assms by (simp add: NewGrid_def prepareGrid_result)
  show ?thesis
    unfolding ng conf eq by simp
qed

lemma rowcol_unique:
  fixes i j i' j' m :: nat
  assumes "j < m" "j' < m" "i * m + j = i' * m + j'"
  shows "i = i' \<and> j = j'"
proof -
  have "(i * m + j) div m = i" "(i * m + j) mod m = j" using assms(1) by simp_all
  moreover have "(i' * m + j') div m = i'" "(i' * m + j') mod m = j'" using assms(2) by simp_all
  ultimately show ?thesis using assms(3) by metis
qed

lemma AllCells_grid_of_cases:
  assumes "Some a \<in> set (AllCells (grid_of b R C))"
  obtains i j where "i < nat R" "j < nat C" "a = b + i * nat C + j"
  using assms by (auto simp: AllCells_def grid_of_def)

lemma nth_built:
  assumes "i < nat R" "j < nat C"
  shows "(h @ cells_of (length h) R C) ! (length h + i * nat C + j) = cell_of (length h) R C (int i) (int j)"
proof -
  have "(h @ cells_of (length h) R C) ! (length h + (i * nat C + j)) = cells_of (length h) R C ! (i * nat C + j)"
    by (rule nth_append_length_plus)
  also have "\<dots> = cell_of (length h) R C (int i) (int j)"
    unfolding cells_of_def by (rule nth_concat_rows[OF assms])
  finally show ?thesis by (simp add: add.assoc)
qed

lemma length_built: "length (h @ cells_of (length h) R C) = length h + nat R * nat C"
  by (simp add: cells_of_def length_concat_rows)

lemma rowcol_less:
  fixes i j n m :: nat
  assumes "i < n" "j < m"
  shows "i * m + j < n * m"
proof -
  have "i * m + j < i * m + m" using assms(2) by simp
  also have "\<dots> = Suc i * m" by simp
  also have "\<dots> \<le> n * m" using assms(1) by (intro mult_le_mono1) simp
  finally show ?thesis .
qed

lemma grid_ptr_in_AllCells:
  assumes "grid_ptr b R C r c = Some a"
  shows "Some a \<in> set (AllCells (grid_of b R C))"
proof -
  from assms have rc: "0 \<le> r" "r < R" "0 \<le> c" "c < C" and a: "a = b + nat r * nat C + nat c"
    by (auto simp: grid_ptr_def split: if_splits)
  have "nat r * nat C + nat c < nat R * nat C"
    using rc by (intro rowcol_less) simp_all
  with a show ?thesis by (simp add: in_AllCells_grid_of)
qed

lemma grid_ptr_eq_iff:
  assumes "i < nat R" "j < nat C"
  shows "grid_ptr b R C r c = Some (b + i * nat C + j) \<longleftrightarrow> r = int i \<and> c = int j"
proof
  assume "grid_ptr b R C r c = Some (b + i * nat C + j)"
  then have rc: "0 \<le> r" "r < R" "0 \<le> c" "c < C" and eq: "nat r * nat C + nat c = i * nat C + j"
    by (auto simp: grid_ptr_def split: if_splits)
  have "nat c < nat C" using rc by simp
  from rowcol_unique[OF this assms(2) eq] rc show "r = int i \<and> c = int j" by auto
next
  assume "r = int i \<and> c = int j"
  with assms show "grid_ptr b R C r c = Some (b + i * nat C + j)"
    by (auto simp: grid_ptr_def)
qed

section \<open>Properties of the link relation\<close>

lemma LinkOneWay_valid:
  "a < length h \<Longrightarrow> LinkOneWay h (Some a) k = Inr (h[a := (h ! a)\<lparr>links := (links (h ! a))(k \<mapsto> True)\<rparr>])"
  by (simp add: LinkOneWay_def deref_def assign_def)


lemma Linked_valid:
  "a < length h \<Longrightarrow> Linked h (Some a) (Some k) = Inr (links (h ! a) (Some k) = Some True)"
  by (auto simp: Linked_def deref_def split: option.splits)



text \<open>
  C8. For every cell, \<^verbatim>\<open>Linked\<close> with a nil argument returns false and does not
  fail, whatever the cell's link map holds (and whatever the receiver is: the nil
  test comes first).
\<close>

theorem Linked_nil_false: "Linked h c None = Inr False"
  by (simp add: Linked_def)

text \<open>
  C9. Linking does not treat nil as harmless. For every cell \<open>A\<close> of the store,
  \<^verbatim>\<open>A.Link(nil)\<close> panics: its first one-way call returns and its second one,
  \<^verbatim>\<open>nil.LinkOneWay(A)\<close>, reads the link map of the nil receiver. \<^verbatim>\<open>A.LinkOneWay(nil)\<close>
  does not reject nil: it stores the key nil in the link map of \<open>A\<close>; and
  \<^verbatim>\<open>A.Linked(nil)\<close> is false all the same.
\<close>

theorem Link_nil_panics:
  assumes "a < length h"
  shows "Link h (Some a) None = Inl NilDereference \<and>
         (\<exists>h1. LinkOneWay h (Some a) None = Inr h1 \<and>
               LinkOneWay h1 None (Some a) = Inl NilDereference \<and>
               links (h1 ! a) None = Some True \<and>
               Linked h1 (Some a) None = Inr False)"
  using assms
  by (simp add: Link_def LinkOneWay_valid Linked_def) (simp add: LinkOneWay_def deref_def)

text \<open>The theorem at a new cell.\<close>

theorem Link_nil_panics_witness:
  "Link [NewCell 0 0] (Some 0) None = Inl NilDereference \<and>
   (\<exists>h1. LinkOneWay [NewCell 0 0 :: ptr Cell] (Some 0) None = Inr h1 \<and>
         LinkOneWay h1 None (Some 0) = Inl NilDereference \<and>
         links (h1 ! 0) None = Some True \<and>
         Linked h1 (Some 0) None = Inr False)"
  using Link_nil_panics[of 0 "[NewCell 0 0]"] by simp

section \<open>Properties of a new grid\<close>

lemma NewGrid_2_2:
  "NewGrid 2 2 ([] :: 'k heap) = Inr (grid_of 0 2 2, cells_of 0 2 2)"
  using NewGrid_result[of 2 2 "[]"] by simp

lemma cells_of_0_2_2:
  "(cells_of 0 2 2 :: 'k heap) =
     [cell_of 0 2 2 0 0, cell_of 0 2 2 0 1, cell_of 0 2 2 1 0, cell_of 0 2 2 1 1]"
  by (simp add: cells_of_def eval_nat_numeral)

lemma AllCells_0_2_2: "AllCells (grid_of 0 2 2) = [Some 0, Some 1, Some 2, Some 3]"
  by (simp add: AllCells_def grid_of_def eval_nat_numeral)

lemma grid_ptr_cell:
  assumes "grid_ptr (length h) R C r c = Some a"
  shows "a < length (h @ cells_of (length h) R C) \<and>
         (h @ cells_of (length h) R C) ! a = cell_of (length h) R C r c"
proof -
  from assms have rc: "0 \<le> r" "r < R" "0 \<le> c" "c < C"
    and a: "a = length h + nat r * nat C + nat c"
    by (auto simp: grid_ptr_def split: if_splits)
  have "(h @ cells_of (length h) R C) ! a = cell_of (length h) R C (int (nat r)) (int (nat c))"
    unfolding a using rc by (intro nth_built) simp_all
  moreover have "a < length (h @ cells_of (length h) R C)"
    using grid_ptr_in_AllCells[OF assms]
    by (simp add: in_AllCells_grid_of length_built del: length_append)
  ultimately show ?thesis using rc by simp
qed

text \<open>
  C3. For all \<open>R \<ge> 0\<close> and \<open>C \<ge> 0\<close>, \<^verbatim>\<open>NewGrid(R, C)\<close> returns, and right after
  it, for all cells \<open>A\<close> and \<open>B\<close> of the grid: \<open>A.East = B\<close> iff \<open>B.West = A\<close>,
  \<open>A.North = B\<close> iff \<open>B.South = A\<close>, and the link map of \<open>A\<close> is empty.
\<close>

theorem NewGrid_adjacency_reciprocal:
  assumes "0 \<le> R" "0 \<le> C"
  shows "\<exists>g h'. NewGrid R C h = Inr (g, h') \<and>
     (\<forall>A B. Some A \<in> set (AllCells g) \<and> Some B \<in> set (AllCells g) \<longrightarrow>
        A < length h' \<and>
        (East (h' ! A) = Some B \<longleftrightarrow> West (h' ! B) = Some A) \<and>
        (North (h' ! A) = Some B \<longleftrightarrow> South (h' ! B) = Some A) \<and>
        links (h' ! A) = Map.empty)"
proof -
  let ?b = "length h"
  let ?g = "grid_of ?b R C"
  let ?h = "h @ cells_of ?b R C"
  have "A < length ?h \<and>
        (East (?h ! A) = Some B \<longleftrightarrow> West (?h ! B) = Some A) \<and>
        (North (?h ! A) = Some B \<longleftrightarrow> South (?h ! B) = Some A) \<and>
        links (?h ! A) = Map.empty"
    if A: "Some A \<in> set (AllCells ?g)" and B: "Some B \<in> set (AllCells ?g)" for A B
  proof -
    from A obtain i j where ij: "i < nat R" "j < nat C" "A = ?b + i * nat C + j"
      by (rule AllCells_grid_of_cases)
    from B obtain i' j' where ij': "i' < nat R" "j' < nat C" "B = ?b + i' * nat C + j'"
      by (rule AllCells_grid_of_cases)
    have cA: "?h ! A = cell_of ?b R C (int i) (int j)"
      unfolding ij(3) by (rule nth_built[OF ij(1,2)])
    have cB: "?h ! B = cell_of ?b R C (int i') (int j')"
      unfolding ij'(3) by (rule nth_built[OF ij'(1,2)])
    have len: "A < length ?h"
      using A by (simp add: in_AllCells_grid_of length_built del: length_append)
    have ew: "East (?h ! A) = Some B \<longleftrightarrow> West (?h ! B) = Some A"
      unfolding cA cB unfolding ij(3) ij'(3)
      by (auto simp: cell_of_def grid_ptr_eq_iff[OF ij'(1,2)] grid_ptr_eq_iff[OF ij(1,2)])
    have ns: "North (?h ! A) = Some B \<longleftrightarrow> South (?h ! B) = Some A"
      unfolding cA cB unfolding ij(3) ij'(3)
      by (auto simp: cell_of_def grid_ptr_eq_iff[OF ij'(1,2)] grid_ptr_eq_iff[OF ij(1,2)])
    have "links (?h ! A) = Map.empty"
      unfolding cA by (simp add: cell_of_def)
    with len ew ns show ?thesis by blast
  qed
  then show ?thesis
    using NewGrid_result[OF assms, of h] by blast
qed

text \<open>The theorem at the 2 by 2 grid: cell 0 has cell 1 to its east and not to its north.\<close>

theorem NewGrid_adjacency_reciprocal_witness:
  "\<exists>g h'. NewGrid 2 2 ([] :: ptr heap) = Inr (g, h') \<and>
      Some 0 \<in> set (AllCells g) \<and> Some 1 \<in> set (AllCells g) \<and> 0 < length h' \<and>
      East (h' ! 0) = Some 1 \<and> West (h' ! 1) = Some 0 \<and>
      North (h' ! 0) \<noteq> Some 1 \<and> South (h' ! 1) \<noteq> Some 0 \<and>
      links (h' ! 0) = Map.empty"
proof -
  from NewGrid_adjacency_reciprocal[of 2 2 "[] :: ptr heap"]
  obtain g h' where ng: "NewGrid 2 2 ([] :: ptr heap) = Inr (g, h')"
    and rec: "\<And>A B. Some A \<in> set (AllCells g) \<Longrightarrow> Some B \<in> set (AllCells g) \<Longrightarrow>
        A < length h' \<and>
        (East (h' ! A) = Some B \<longleftrightarrow> West (h' ! B) = Some A) \<and>
        (North (h' ! A) = Some B \<longleftrightarrow> South (h' ! B) = Some A) \<and>
        links (h' ! A) = Map.empty"
    by auto
  from ng have g: "g = grid_of 0 2 2" and h': "h' = cells_of 0 2 2"
    by (simp_all add: NewGrid_2_2)
  have cells: "Some 0 \<in> set (AllCells g)" "Some 1 \<in> set (AllCells g)"
    by (simp_all add: g AllCells_0_2_2)
  have "East (h' ! 0) = Some 1" "North (h' ! 0) \<noteq> Some 1"
    by (simp_all add: h' cells_of_0_2_2 cell_of_def grid_ptr_def)
  with rec[OF cells] ng cells show ?thesis by auto
qed


text \<open>
  C4. For every grid of \<open>R\<close> rows and \<open>C\<close> columns and all integers \<open>row\<close> and
  \<open>column\<close>, \<^verbatim>\<open>At(row, column)\<close> does not panic, and it returns a cell iff
  \<open>0 \<le> row < R\<close> and \<open>0 \<le> column < C\<close>; the cell it returns is a cell of the store
  at these coordinates. Everywhere else it returns nil.
\<close>

theorem At_cell_iff_in_range:
  assumes "0 \<le> R" "0 \<le> C"
  shows "\<exists>g h'. NewGrid R C h = Inr (g, h') \<and> Rows g = R \<and> Columns g = C \<and>
     (\<forall>row column. \<exists>p. At g row column = Inr p \<and>
        (p \<noteq> None \<longleftrightarrow> 0 \<le> row \<and> row < R \<and> 0 \<le> column \<and> column < C) \<and>
        (\<forall>a. p = Some a \<longrightarrow>
           a < length h' \<and> Row (h' ! a) = row \<and> Column (h' ! a) = column))"
proof -
  let ?b = "length h"
  let ?g = "grid_of ?b R C"
  let ?h = "h @ cells_of ?b R C"
  have "At ?g row column = Inr (grid_ptr ?b R C row column) \<and>
        (grid_ptr ?b R C row column \<noteq> None \<longleftrightarrow> 0 \<le> row \<and> row < R \<and> 0 \<le> column \<and> column < C) \<and>
        (\<forall>a. grid_ptr ?b R C row column = Some a \<longrightarrow>
           a < length ?h \<and> Row (?h ! a) = row \<and> Column (?h ! a) = column)" for row column
  proof (intro conjI allI impI)
    show "At ?g row column = Inr (grid_ptr ?b R C row column)" by (rule At_grid_of)
    show "grid_ptr ?b R C row column \<noteq> None \<longleftrightarrow> 0 \<le> row \<and> row < R \<and> 0 \<le> column \<and> column < C"
      by (simp add: grid_ptr_def)
    fix a assume a: "grid_ptr ?b R C row column = Some a"
    from grid_ptr_cell[OF a]
    show "a < length ?h" "Row (?h ! a) = row" "Column (?h ! a) = column"
      by (simp_all add: cell_of_def)
  qed
  note at = this
  have all: "\<forall>row column. \<exists>p. At ?g row column = Inr p \<and>
        (p \<noteq> None \<longleftrightarrow> 0 \<le> row \<and> row < R \<and> 0 \<le> column \<and> column < C) \<and>
        (\<forall>a. p = Some a \<longrightarrow>
           a < length ?h \<and> Row (?h ! a) = row \<and> Column (?h ! a) = column)"
  proof (intro allI)
    fix row column
    show "\<exists>p. At ?g row column = Inr p \<and>
        (p \<noteq> None \<longleftrightarrow> 0 \<le> row \<and> row < R \<and> 0 \<le> column \<and> column < C) \<and>
        (\<forall>a. p = Some a \<longrightarrow>
           a < length ?h \<and> Row (?h ! a) = row \<and> Column (?h ! a) = column)"
      by (rule exI[of _ "grid_ptr ?b R C row column"]) (rule at)
  qed
  have dims: "Rows ?g = R" "Columns ?g = C" by (simp_all add: grid_of_def)
  have ng: "NewGrid R C h = Inr (?g, ?h)" by (rule NewGrid_result[OF assms])
  show ?thesis
    by (rule exI[of _ ?g], rule exI[of _ ?h], intro conjI) (fact ng dims all)+
qed

text \<open>The theorem at the 2 by 2 grid, inside and one step outside on each side.\<close>

theorem At_cell_iff_in_range_witness:
  "\<exists>g h'. NewGrid 2 2 ([] :: ptr heap) = Inr (g, h') \<and> Rows g = 2 \<and> Columns g = 2 \<and>
      At g 1 1 = Inr (Some 3) \<and> 3 < length h' \<and> Row (h' ! 3) = 1 \<and> Column (h' ! 3) = 1 \<and>
      At g (- 1) 0 = Inr None \<and> At g 2 0 = Inr None \<and> At g 0 (- 1) = Inr None \<and> At g 0 2 = Inr None"
proof -
  from At_cell_iff_in_range[of 2 2 "[] :: ptr heap"]
  obtain g h' where ng: "NewGrid 2 2 ([] :: ptr heap) = Inr (g, h')"
    and dims: "Rows g = 2" "Columns g = 2"
    and at: "\<And>row column. \<exists>p. At g row column = Inr p \<and>
        (p \<noteq> None \<longleftrightarrow> 0 \<le> row \<and> row < 2 \<and> 0 \<le> column \<and> column < 2) \<and>
        (\<forall>a. p = Some a \<longrightarrow> a < length h' \<and> Row (h' ! a) = row \<and> Column (h' ! a) = column)"
    by auto
  from ng have g: "g = grid_of 0 2 2"
    by (simp add: NewGrid_2_2)
  have in_range: "At g 1 1 = Inr (Some 3)"
    by (simp add: g At_grid_of grid_ptr_def)
  with at[of 1 1] have "3 < length h' \<and> Row (h' ! 3) = 1 \<and> Column (h' ! 3) = 1" by simp
  moreover have "At g (- 1) 0 = Inr None" "At g 2 0 = Inr None"
      "At g 0 (- 1) = Inr None" "At g 0 2 = Inr None"
    using at[of "- 1" 0] at[of 2 0] at[of 0 "- 1"] at[of 0 2] by auto
  ultimately show ?thesis using ng dims in_range by simp
qed

text \<open>
  C10. \<^verbatim>\<open>NewGrid\<close> accepts zero rows or zero columns, and on every such grid
  \<^verbatim>\<open>RandomCell\<close> panics with the invalid argument of the draw; on every grid with
  \<open>R \<ge> 1\<close> and \<open>C \<ge> 1\<close> it returns a non-nil cell of the grid.
\<close>

lemma Int63n_pos: "0 < n \<Longrightarrow> Int63n src k n = Inr (int (src k) mod n, Suc k)"
  by (simp add: Int63n_def)

lemma Intn_pos: "0 < n \<Longrightarrow> Intn src k n = Inr (int (src k) mod n, Suc k)"
  by (simp add: Intn_def)

theorem RandomCell_panics_or_returns_cell:
  assumes "0 \<le> R" "0 \<le> C"
  shows "\<exists>g h'. NewGrid R C h = Inr (g, h') \<and>
     (if R = 0 \<or> C = 0 then RandomCell seeded g = Inl InvalidArgument
      else \<exists>a k. RandomCell seeded g = Inr (Some a, k) \<and>
             Some a \<in> set (AllCells g) \<and> a < length h')"
proof -
  let ?b = "length h"
  let ?g = "grid_of ?b R C"
  let ?h = "h @ cells_of ?b R C"
  have dims: "Rows ?g = R" "Columns ?g = C" by (simp_all add: grid_of_def)
  have "if R = 0 \<or> C = 0 then RandomCell seeded ?g = Inl InvalidArgument
      else \<exists>a k. RandomCell seeded ?g = Inr (Some a, k) \<and>
             Some a \<in> set (AllCells ?g) \<and> a < length ?h"
  proof (cases "R = 0 \<or> C = 0")
    case True
    then show ?thesis
      using assms by (auto simp: RandomCell_def dims Int63n_def)
  next
    case False
    then have pos: "0 < R" "0 < C" using assms by auto
    let ?r = "int (seeded 0) mod R" and ?c = "int (seeded (Suc 0)) mod C"
    have rc: "0 \<le> ?r" "?r < R" "0 \<le> ?c" "?c < C" using pos by simp_all
    then obtain a where a: "grid_ptr ?b R C ?r ?c = Some a"
      by (simp add: grid_ptr_def)
    have "RandomCell seeded ?g = Inr (Some a, Suc (Suc 0))"
      using pos a by (simp add: RandomCell_def dims Int63n_pos At_grid_of)
    moreover have "Some a \<in> set (AllCells ?g)" by (rule grid_ptr_in_AllCells[OF a])
    moreover have "a < length ?h" using grid_ptr_cell[OF a] by simp
    ultimately show ?thesis using False by auto
  qed
  then show ?thesis
    using NewGrid_result[OF assms, of h] by blast
qed

text \<open>The theorem at the grids 0 by 3, 3 by 0 and 2 by 2.\<close>

theorem RandomCell_panics_or_returns_cell_witness:
  "(\<exists>g h'. NewGrid 0 3 ([] :: ptr heap) = Inr (g, h') \<and>
      RandomCell (\<lambda>k. 7) g = Inl InvalidArgument) \<and>
   (\<exists>g h'. NewGrid 3 0 ([] :: ptr heap) = Inr (g, h') \<and>
      RandomCell (\<lambda>k. 7) g = Inl InvalidArgument) \<and>
   (\<exists>g h' a k. NewGrid 2 2 ([] :: ptr heap) = Inr (g, h') \<and>
      RandomCell (\<lambda>k. 7) g = Inr (Some a, k) \<and> Some a \<in> set (AllCells g) \<and> a < length h')"
  using RandomCell_panics_or_returns_cell[of 0 3 "[] :: ptr heap" "\<lambda>k. 7"]
    RandomCell_panics_or_returns_cell[of 3 0 "[] :: ptr heap" "\<lambda>k. 7"]
    RandomCell_panics_or_returns_cell[of 2 2 "[] :: ptr heap" "\<lambda>k. 7"]
  by simp

section \<open>Properties of the corner glyph\<close>

lemma cornerGlyph_idx_value:
  "cornerGlyph_idx up left down right =
     (if up then 1 else 0) + (if down then 2 else 0) + (if left then 4 else 0) + (if right then 8 else 0)"
  by (simp add: cornerGlyph_idx_def)

lemma glyphs_distinct:
  "distinct [blank, vertical, horizontal, cornerUpLeft, cornerDownLeft, verticalLeft,
     cornerUpRight, cornerDownRight, verticalRight, horizontalUp, horizontalDown, intersection]"
  by (simp add: blank_def vertical_def horizontal_def cornerUpLeft_def cornerDownLeft_def
      verticalLeft_def cornerUpRight_def cornerDownRight_def verticalRight_def horizontalUp_def
      horizontalDown_def intersection_def)

lemma cornerGlyph_rows:
  "cornerGlyph False False False False = Inr blank"
  "cornerGlyph True False False False = Inr vertical"
  "cornerGlyph False False True False = Inr vertical"
  "cornerGlyph True False True False = Inr vertical"
  "cornerGlyph False True False False = Inr horizontal"
  "cornerGlyph True True False False = Inr cornerUpLeft"
  "cornerGlyph False True True False = Inr cornerDownLeft"
  "cornerGlyph True True True False = Inr verticalLeft"
  "cornerGlyph False False False True = Inr horizontal"
  "cornerGlyph True False False True = Inr cornerUpRight"
  "cornerGlyph False False True True = Inr cornerDownRight"
  "cornerGlyph True False True True = Inr verticalRight"
  "cornerGlyph False True False True = Inr horizontal"
  "cornerGlyph True True False True = Inr horizontalUp"
  "cornerGlyph False True True True = Inr horizontalDown"
  "cornerGlyph True True True True = Inr intersection"
  by (simp_all add: cornerGlyph_def cornerGlyph_idx_def index_def glyphs_def)

lemma cornerGlyph_values:
  "{r. \<exists>up left down right. cornerGlyph up left down right = Inr r} =
     set [blank, vertical, horizontal, cornerUpLeft, cornerDownLeft, verticalLeft,
       cornerUpRight, cornerDownRight, verticalRight, horizontalUp, horizontalDown, intersection]"
proof (intro set_eqI iffI)
  fix r
  assume "r \<in> {r. \<exists>up left down right. cornerGlyph up left down right = Inr r}"
  then obtain up left down right where "cornerGlyph up left down right = Inr r" by blast
  then show "r \<in> set [blank, vertical, horizontal, cornerUpLeft, cornerDownLeft, verticalLeft,
       cornerUpRight, cornerDownRight, verticalRight, horizontalUp, horizontalDown, intersection]"
    by (cases up; cases left; cases down; cases right) (simp_all add: cornerGlyph_rows)
next
  fix r
  assume "r \<in> set [blank, vertical, horizontal, cornerUpLeft, cornerDownLeft, verticalLeft,
       cornerUpRight, cornerDownRight, verticalRight, horizontalUp, horizontalDown, intersection]"
  then consider "r = blank" | "r = vertical" | "r = horizontal" | "r = cornerUpLeft"
    | "r = cornerDownLeft" | "r = verticalLeft" | "r = cornerUpRight" | "r = cornerDownRight"
    | "r = verticalRight" | "r = horizontalUp" | "r = horizontalDown" | "r = intersection"
    by auto
  then show "r \<in> {r. \<exists>up left down right. cornerGlyph up left down right = Inr r}"
    using cornerGlyph_rows by cases blast+
qed

lemma cornerGlyph_values_card:
  "card {r. \<exists>up left down right. cornerGlyph up left down right = Inr r} = 12"
  unfolding cornerGlyph_values using distinct_card[OF glyphs_distinct] by simp


lemma cornerGlyph_wall_values:
  "{r. \<exists>up left down right. (up \<or> left \<or> down \<or> right) \<and> cornerGlyph up left down right = Inr r} =
     set [vertical, horizontal, cornerUpLeft, cornerDownLeft, verticalLeft,
       cornerUpRight, cornerDownRight, verticalRight, horizontalUp, horizontalDown, intersection]"
proof (intro set_eqI iffI)
  fix r
  assume "r \<in> {r. \<exists>up left down right. (up \<or> left \<or> down \<or> right) \<and> cornerGlyph up left down right = Inr r}"
  then obtain up left down right
    where "up \<or> left \<or> down \<or> right" "cornerGlyph up left down right = Inr r" by blast
  then show "r \<in> set [vertical, horizontal, cornerUpLeft, cornerDownLeft, verticalLeft,
       cornerUpRight, cornerDownRight, verticalRight, horizontalUp, horizontalDown, intersection]"
    by (cases up; cases left; cases down; cases right) (simp_all add: cornerGlyph_rows)
next
  fix r
  assume "r \<in> set [vertical, horizontal, cornerUpLeft, cornerDownLeft, verticalLeft,
       cornerUpRight, cornerDownRight, verticalRight, horizontalUp, horizontalDown, intersection]"
  then consider "r = vertical" | "r = horizontal" | "r = cornerUpLeft"
    | "r = cornerDownLeft" | "r = verticalLeft" | "r = cornerUpRight" | "r = cornerDownRight"
    | "r = verticalRight" | "r = horizontalUp" | "r = horizontalDown" | "r = intersection"
    by auto
  then show "r \<in> {r. \<exists>up left down right. (up \<or> left \<or> down \<or> right) \<and> cornerGlyph up left down right = Inr r}"
  proof cases
    case 1 then show ?thesis using cornerGlyph_rows(2) by blast
  next
    case 2 then show ?thesis using cornerGlyph_rows(5) by blast
  next
    case 3 then show ?thesis using cornerGlyph_rows(6) by blast
  next
    case 4 then show ?thesis using cornerGlyph_rows(7) by blast
  next
    case 5 then show ?thesis using cornerGlyph_rows(8) by blast
  next
    case 6 then show ?thesis using cornerGlyph_rows(10) by blast
  next
    case 7 then show ?thesis using cornerGlyph_rows(11) by blast
  next
    case 8 then show ?thesis using cornerGlyph_rows(12) by blast
  next
    case 9 then show ?thesis using cornerGlyph_rows(14) by blast
  next
    case 10 then show ?thesis using cornerGlyph_rows(15) by blast
  next
    case 11 then show ?thesis using cornerGlyph_rows(16) by blast
  qed
qed

text \<open>
  C7, as the code has it. The glyph is a fixed, total lookup: the four directions
  are combined by bitwise or into the index \<open>up + 2 down + 4 left + 8 right\<close> of a
  table of 16 entries, and every index selects one entry without a panic. No
  direction gives the blank; up, down, and up with down give the vertical line;
  left, right, and left with right give the horizontal line; every other
  combination gives the corner, tee or cross of its directions. The 16
  combinations give 12 different runes: the blank, and 11 box-drawing glyphs for
  the 15 combinations with a direction.
\<close>

theorem cornerGlyph_table:
  "cornerGlyph_idx up left down right =
     (if up then 1 else 0) + (if down then 2 else 0) + (if left then 4 else 0) + (if right then 8 else 0) \<and>
   cornerGlyph False False False False = Inr blank \<and>
   cornerGlyph True False False False = Inr vertical \<and>
   cornerGlyph False False True False = Inr vertical \<and>
   cornerGlyph True False True False = Inr vertical \<and>
   cornerGlyph False True False False = Inr horizontal \<and>
   cornerGlyph False False False True = Inr horizontal \<and>
   cornerGlyph False True False True = Inr horizontal \<and>
   cornerGlyph True True False False = Inr cornerUpLeft \<and>
   cornerGlyph False True True False = Inr cornerDownLeft \<and>
   cornerGlyph True False False True = Inr cornerUpRight \<and>
   cornerGlyph False False True True = Inr cornerDownRight \<and>
   cornerGlyph True True True False = Inr verticalLeft \<and>
   cornerGlyph True False True True = Inr verticalRight \<and>
   cornerGlyph True True False True = Inr horizontalUp \<and>
   cornerGlyph False True True True = Inr horizontalDown \<and>
   cornerGlyph True True True True = Inr intersection \<and>
   card {r. \<exists>up left down right. cornerGlyph up left down right = Inr r} = 12 \<and>
   card {r. \<exists>up left down right. (up \<or> left \<or> down \<or> right) \<and>
          cornerGlyph up left down right = Inr r} = 11"
proof -
  have "distinct [vertical, horizontal, cornerUpLeft, cornerDownLeft, verticalLeft,
       cornerUpRight, cornerDownRight, verticalRight, horizontalUp, horizontalDown, intersection]"
    using glyphs_distinct by simp
  from distinct_card[OF this]
  have "card {r. \<exists>up left down right. (up \<or> left \<or> down \<or> right) \<and>
          cornerGlyph up left down right = Inr r} = 11"
    unfolding cornerGlyph_wall_values by simp
  then show ?thesis
    by (simp add: cornerGlyph_idx_value cornerGlyph_rows cornerGlyph_values_card)
qed

text \<open>
  C7 as stated counts 11 different glyphs for the 16 combinations. The set of the 16
  results does not have 11 elements (it has 12: the blank is one of them).
\<close>

theorem cornerGlyph_eleven_glyphs_counterexample:
  "card (set
     [cornerGlyph False False False False, cornerGlyph True False False False,
      cornerGlyph False False True False, cornerGlyph True False True False,
      cornerGlyph False True False False, cornerGlyph True True False False,
      cornerGlyph False True True False, cornerGlyph True True True False,
      cornerGlyph False False False True, cornerGlyph True False False True,
      cornerGlyph False False True True, cornerGlyph True False True True,
      cornerGlyph False True False True, cornerGlyph True True False True,
      cornerGlyph False True True True, cornerGlyph True True True True]) \<noteq> 11"
proof -
  have "distinct (map Inr [blank, vertical, horizontal, cornerUpLeft, cornerDownLeft, verticalLeft,
     cornerUpRight, cornerDownRight, verticalRight, horizontalUp, horizontalDown, intersection]
       :: (panic + rune) list)"
    using glyphs_distinct by (simp only: distinct_map inj_on_def sum.inject) simp
  from distinct_card[OF this] show ?thesis
    by (simp add: cornerGlyph_rows insert_commute)
qed

section \<open>Properties of Binary Tree\<close>

lemma frame_refl: "frame h h"
  by (auto simp: frame_def intro!: exI[of _ "links (h ! _)"])

lemma frame_trans:
  assumes "frame h1 h2" "frame h2 h3"
  shows "frame h1 h3"
  unfolding frame_def
proof (intro conjI allI impI)
  show "length h3 = length h1" using assms by (simp add: frame_def)
  fix a assume a: "a < length h1"
  then obtain l where l: "h2 ! a = (h1 ! a)\<lparr>links := l\<rparr>"
      "\<forall>k. links (h1 ! a) k = Some True \<longrightarrow> l k = Some True"
    using assms(1) by (auto simp: frame_def)
  from a assms(1) have "a < length h2" by (simp add: frame_def)
  then obtain l' where l': "h3 ! a = (h2 ! a)\<lparr>links := l'\<rparr>"
      "\<forall>k. links (h2 ! a) k = Some True \<longrightarrow> l' k = Some True"
    using assms(2) by (auto simp: frame_def)
  show "\<exists>l. h3 ! a = (h1 ! a)\<lparr>links := l\<rparr> \<and>
        (\<forall>k. links (h1 ! a) k = Some True \<longrightarrow> l k = Some True)"
    using l l' by (intro exI[of _ l']) simp
qed

lemma frame_fields:
  assumes "frame h h'" "a < length h"
  shows "North (h' ! a) = North (h ! a)" "East (h' ! a) = East (h ! a)"
    "South (h' ! a) = South (h ! a)" "West (h' ! a) = West (h ! a)"
    "links (h ! a) k = Some True \<Longrightarrow> links (h' ! a) k = Some True"
  using assms by (auto simp: frame_def)

lemma frame_length: "frame h h' \<Longrightarrow> length h' = length h"
  by (simp add: frame_def)

lemma frame_closed_store:
  assumes "frame h h'" "closed_store h"
  shows "closed_store h'"
  unfolding closed_store_def
proof (intro ballI allI impI)
  fix c p a
  assume c: "c \<in> set h'" and p: "p \<in> {North c, South c, East c, West c}" and pa: "p = Some a"
  from c obtain i where i: "i < length h'" "c = h' ! i" by (auto simp: in_set_conv_nth)
  then have i': "i < length h" using assms(1) by (simp add: frame_def)
  have "p \<in> {North (h ! i), South (h ! i), East (h ! i), West (h ! i)}"
    using p i(2) frame_fields(1-4)[OF assms(1) i'] by simp
  moreover have "h ! i \<in> set h" using i' by simp
  ultimately have "a < length h"
    using assms(2) pa unfolding closed_store_def by blast
  then show "a < length h'" using assms(1) by (simp add: frame_def)
qed

lemma frame_update_links:
  assumes "a < length h" "\<forall>k. links (h ! a) k = Some True \<longrightarrow> l k = Some True"
  shows "frame h (h[a := (h ! a)\<lparr>links := l\<rparr>])"
  unfolding frame_def
proof (intro conjI allI impI)
  show "length (h[a := (h ! a)\<lparr>links := l\<rparr>]) = length h" by simp
  fix b assume "b < length h"
  show "\<exists>l'. h[a := (h ! a)\<lparr>links := l\<rparr>] ! b = (h ! b)\<lparr>links := l'\<rparr> \<and>
        (\<forall>k. links (h ! b) k = Some True \<longrightarrow> l' k = Some True)"
  proof (cases "b = a")
    case True
    with assms show ?thesis by (intro exI[of _ l]) simp
  next
    case False
    then show ?thesis by (intro exI[of _ "links (h ! b)"]) simp
  qed
qed

lemma LinkOneWay_frame:
  assumes "a < length h"
  shows "\<exists>h'. LinkOneWay h (Some a) k = Inr h' \<and> frame h h' \<and> links (h' ! a) k = Some True"
  using assms frame_update_links[OF assms, of "(links (h ! a))(k \<mapsto> True)"]
  by (simp add: LinkOneWay_valid)

lemma Link_frame:
  assumes "a < length h" "n < length h"
  shows "\<exists>h'. Link h (Some a) (Some n) = Inr h' \<and> frame h h' \<and>
           links (h' ! a) (Some n) = Some True \<and> links (h' ! n) (Some a) = Some True"
proof -
  from LinkOneWay_frame[OF assms(1), of "Some n"]
  obtain h1 where h1: "LinkOneWay h (Some a) (Some n) = Inr h1" "frame h h1"
      "links (h1 ! a) (Some n) = Some True" by blast
  have len1: "length h1 = length h" using h1(2) by (rule frame_length)
  then have "n < length h1" using assms(2) by simp
  from LinkOneWay_frame[OF this, of "Some a"]
  obtain h2 where h2: "LinkOneWay h1 (Some n) (Some a) = Inr h2" "frame h1 h2"
      "links (h2 ! n) (Some a) = Some True" by blast
  have "links (h2 ! a) (Some n) = Some True"
    using frame_fields(5)[OF h2(2) _ h1(3)] assms(1) len1 by simp
  moreover have "frame h h2" using h1(2) h2(2) by (rule frame_trans)
  moreover have "Link h (Some a) (Some n) = Inr h2" using h1(1) h2(1) by (simp add: Link_def)
  ultimately show ?thesis using h2(3) by blast
qed


lemma BinaryTree_cell_none:
  assumes "a < length h" "North (h ! a) = None" "East (h ! a) = None"
  shows "BinaryTree_cell src (k, h) (Some a) = Inr (k, h)"
  using assms by (simp add: BinaryTree_cell_def deref_def)

lemma BinaryTree_cell_choice:
  assumes "a < length h" "North (h ! a) \<noteq> None \<or> East (h ! a) \<noteq> None"
  shows "\<exists>n. (North (h ! a) = Some n \<or> East (h ! a) = Some n) \<and>
           BinaryTree_cell src (k, h) (Some a) =
             (case Link h (Some a) (Some n) of Inl e \<Rightarrow> Inl e | Inr h1 \<Rightarrow> Inr (Suc k, h1))"
proof (cases "North (h ! a)")
  case None
  with assms(2) obtain e where e: "East (h ! a) = Some e" by auto
  show ?thesis
    using assms(1) None e
    by (intro exI[of _ e]) (simp add: BinaryTree_cell_def deref_def Intn_pos index_def)
next
  case (Some n)
  show ?thesis
  proof (cases "East (h ! a)")
    case None
    show ?thesis
      using assms(1) Some None
      by (intro exI[of _ n]) (simp add: BinaryTree_cell_def deref_def Intn_pos index_def)
  next
    case e: (Some e)
    have m: "int (src k) mod 2 = 0 \<or> int (src k) mod 2 = 1" by presburger
    then show ?thesis
    proof
      assume "int (src k) mod 2 = 0"
      then show ?thesis
        using assms(1) Some e
        by (intro exI[of _ n]) (simp add: BinaryTree_cell_def deref_def Intn_pos index_def)
    next
      assume "int (src k) mod 2 = 1"
      then show ?thesis
        using assms(1) Some e
        by (intro exI[of _ e]) (simp add: BinaryTree_cell_def deref_def Intn_pos index_def)
    qed
  qed
qed

lemma BinaryTree_cell_result:
  assumes "a < length h" "\<forall>n. North (h ! a) = Some n \<or> East (h ! a) = Some n \<longrightarrow> n < length h"
  shows "\<exists>k' h'. BinaryTree_cell src (k, h) (Some a) = Inr (k', h') \<and> frame h h' \<and>
     (if North (h ! a) = None \<and> East (h ! a) = None then k' = k \<and> h' = h
      else k' = Suc k \<and>
        (\<exists>n. (North (h ! a) = Some n \<or> East (h ! a) = Some n) \<and>
           links (h' ! a) (Some n) = Some True \<and> links (h' ! n) (Some a) = Some True))"
proof (cases "North (h ! a) = None \<and> East (h ! a) = None")
  case True
  then show ?thesis
    using BinaryTree_cell_none[OF assms(1), of src k] frame_refl[of h] by auto
next
  case False
  then have "North (h ! a) \<noteq> None \<or> East (h ! a) \<noteq> None" by simp
  from BinaryTree_cell_choice[OF assms(1) this, of src k]
  obtain n where n: "North (h ! a) = Some n \<or> East (h ! a) = Some n"
    and step: "BinaryTree_cell src (k, h) (Some a) =
             (case Link h (Some a) (Some n) of Inl e \<Rightarrow> Inl e | Inr h1 \<Rightarrow> Inr (Suc k, h1))"
    by blast
  have "n < length h"
    using n assms(2) by blast
  from Link_frame[OF assms(1) this]
  obtain h' where h': "Link h (Some a) (Some n) = Inr h'" "frame h h'"
      "links (h' ! a) (Some n) = Some True" "links (h' ! n) (Some a) = Some True"
    by blast
  have "BinaryTree_cell src (k, h) (Some a) = Inr (Suc k, h')"
    using step h'(1) by simp
  with False n h' show ?thesis
    by (intro exI[of _ "Suc k"] exI[of _ h']) auto
qed

lemma cell_ok_frame:
  assumes "frame h h'" "cell_ok h p"
  shows "cell_ok h' p"
  using assms frame_fields(1,2)[OF assms(1)] frame_length[OF assms(1)]
  by (auto simp: cell_ok_def)

lemma has_NE_frame:
  assumes "frame h h'" "cell_ok h p"
  shows "has_NE h' p = has_NE h p"
  using assms frame_fields(1,2)[OF assms(1)]
  by (auto simp: cell_ok_def has_NE_def)

lemma BinaryTree_loop_result:
  assumes "\<forall>p\<in>set cells. cell_ok h p"
  shows "\<exists>k' h'. BinaryTree_loop src (k, h) cells = Inr (k', h') \<and> frame h h' \<and>
     k' = k + length (filter (has_NE h) cells) \<and>
     (\<forall>a. Some a \<in> set cells \<longrightarrow>
        (North (h ! a) = None \<and> East (h ! a) = None) \<or>
        (\<exists>n. (North (h ! a) = Some n \<or> East (h ! a) = Some n) \<and>
           links (h' ! a) (Some n) = Some True \<and> links (h' ! n) (Some a) = Some True))"
  using assms
proof (induction cells arbitrary: k h)
  case Nil
  show ?case using frame_refl[of h] by simp
next
  case (Cons p rest)
  then have "cell_ok h p" by simp
  then obtain a where a: "p = Some a" "a < length h"
    and ne: "\<forall>n. North (h ! a) = Some n \<or> East (h ! a) = Some n \<longrightarrow> n < length h"
    by (auto simp: cell_ok_def)
  from BinaryTree_cell_result[OF a(2) ne, of src k]
  obtain k1 h1 where step: "BinaryTree_cell src (k, h) (Some a) = Inr (k1, h1)"
    and f1: "frame h h1"
    and r1: "if North (h ! a) = None \<and> East (h ! a) = None then k1 = k \<and> h1 = h
      else k1 = Suc k \<and>
        (\<exists>n. (North (h ! a) = Some n \<or> East (h ! a) = Some n) \<and>
           links (h1 ! a) (Some n) = Some True \<and> links (h1 ! n) (Some a) = Some True)"
    by blast
  have len1: "length h1 = length h" using f1 by (rule frame_length)
  have valid1: "\<forall>p\<in>set rest. cell_ok h1 p"
    using Cons.prems cell_ok_frame[OF f1] by simp
  from Cons.IH[OF valid1, of k1]
  obtain k' h' where loop: "BinaryTree_loop src (k1, h1) rest = Inr (k', h')"
    and f2: "frame h1 h'"
    and cnt: "k' = k1 + length (filter (has_NE h1) rest)"
    and r2: "\<forall>a. Some a \<in> set rest \<longrightarrow>
        (North (h1 ! a) = None \<and> East (h1 ! a) = None) \<or>
        (\<exists>n. (North (h1 ! a) = Some n \<or> East (h1 ! a) = Some n) \<and>
           links (h' ! a) (Some n) = Some True \<and> links (h' ! n) (Some a) = Some True)"
    by blast
  have filt: "filter (has_NE h1) rest = filter (has_NE h) rest"
    using Cons.prems by (intro filter_cong) (simp_all add: has_NE_frame[OF f1])
  have k1: "k1 = k + (if has_NE h p then 1 else 0)"
    using r1 a by (auto simp: has_NE_def split: if_splits)
  have "BinaryTree_loop src (k, h) (p # rest) = Inr (k', h')"
    using step loop a by simp
  moreover have "frame h h'" using f1 f2 by (rule frame_trans)
  moreover have "k' = k + length (filter (has_NE h) (p # rest))"
    using cnt k1 filt by simp
  moreover have "(North (h ! b) = None \<and> East (h ! b) = None) \<or>
        (\<exists>n. (North (h ! b) = Some n \<or> East (h ! b) = Some n) \<and>
           links (h' ! b) (Some n) = Some True \<and> links (h' ! n) (Some b) = Some True)"
    if b: "Some b \<in> set (p # rest)" for b
  proof (cases "Some b \<in> set rest")
    case True
    then have bl: "b < length h" using Cons.prems by (auto simp: cell_ok_def)
    from r2 True have "(North (h1 ! b) = None \<and> East (h1 ! b) = None) \<or>
        (\<exists>n. (North (h1 ! b) = Some n \<or> East (h1 ! b) = Some n) \<and>
           links (h' ! b) (Some n) = Some True \<and> links (h' ! n) (Some b) = Some True)"
      by blast
    then show ?thesis using frame_fields(1,2)[OF f1 bl] by simp
  next
    case False
    with b have ba: "b = a" using a by simp
    show ?thesis
    proof (cases "North (h ! a) = None \<and> East (h ! a) = None")
      case True
      then show ?thesis using ba by simp
    next
      case False
      with r1 obtain n where n: "North (h ! a) = Some n \<or> East (h ! a) = Some n"
          "links (h1 ! a) (Some n) = Some True" "links (h1 ! n) (Some a) = Some True"
        by auto
      have nl: "n < length h1" using n(1) ne len1 by auto
      have al: "a < length h1" using a(2) len1 by simp
      have "links (h' ! a) (Some n) = Some True" "links (h' ! n) (Some a) = Some True"
        using frame_fields(5)[OF f2 al n(2)] frame_fields(5)[OF f2 nl n(3)] by simp_all
      with n(1) ba show ?thesis by blast
    qed
  qed
  ultimately show ?case by blast
qed

lemma concat_rows_eq:
  "concat (map (\<lambda>i. map (\<lambda>j. f (i * m + j)) [0..<m]) [0..<n]) = map f [0..<n * m]"
proof (rule nth_equalityI)
  show "length (concat (map (\<lambda>i. map (\<lambda>j. f (i * m + j)) [0..<m]) [0..<n])) = length (map f [0..<n * m])"
    by (simp add: length_concat_rows)
next
  fix x
  assume "x < length (concat (map (\<lambda>i. map (\<lambda>j. f (i * m + j)) [0..<m]) [0..<n]))"
  then have x: "x < n * m" by (simp add: length_concat_rows)
  then have pos: "0 < m" by (cases m) auto
  have i: "x div m < n" using x by (rule less_mult_imp_div_less)
  have j: "x mod m < m" using pos by simp
  have "concat (map (\<lambda>i. map (\<lambda>j. f (i * m + j)) [0..<m]) [0..<n]) ! (x div m * m + x mod m) =
        f (x div m * m + x mod m)"
    by (rule nth_concat_rows[OF i j])
  then show "concat (map (\<lambda>i. map (\<lambda>j. f (i * m + j)) [0..<m]) [0..<n]) ! x = map f [0..<n * m] ! x"
    using x by simp
qed

lemma AllCells_grid_of:
  "AllCells (grid_of b R C) = map (\<lambda>x. Some (b + x)) [0..<nat R * nat C]"
  unfolding AllCells_def grid_of_def
  using concat_rows_eq[of "\<lambda>x. Some (b + x)" "nat C" "nat R"]
  by (simp add: add.assoc)

lemma length_filter_neq_upt:
  assumes "c < N"
  shows "length (filter (\<lambda>x. x \<noteq> c) [0..<N]) = N - 1"
proof -
  have "[0..<c + (N - c)] = [0..<c] @ [c..<c + (N - c)]"
    by (rule upt_add_eq_append) simp
  moreover have "[c..<N] = c # [Suc c..<N]"
    using assms by (rule upt_conv_Cons)
  ultimately have "[0..<N] = [0..<c] @ c # [Suc c..<N]"
    using assms by simp
  then have "filter (\<lambda>x. x \<noteq> c) [0..<N] = filter (\<lambda>x. x \<noteq> c) [0..<c] @ filter (\<lambda>x. x \<noteq> c) [Suc c..<N]"
    by simp
  also have "filter (\<lambda>x. x \<noteq> c) [0..<c] = [0..<c]" by (rule filter_True) simp
  also have "filter (\<lambda>x. x \<noteq> c) [Suc c..<N] = [Suc c..<N]" by (rule filter_True) simp
  finally show ?thesis using assms by simp
qed


lemma cell_ok_built:
  assumes "Some a \<in> set (AllCells (grid_of (length h) R C))"
  shows "cell_ok (h @ cells_of (length h) R C) (Some a)"
proof -
  let ?H = "h @ cells_of (length h) R C"
  from assms obtain i j where ij: "i < nat R" "j < nat C" "a = length h + i * nat C + j"
    by (rule AllCells_grid_of_cases)
  have cell: "?H ! a = cell_of (length h) R C (int i) (int j)"
    unfolding ij(3) by (rule nth_built[OF ij(1,2)])
  have len: "a < length ?H"
    using assms by (simp add: in_AllCells_grid_of length_built del: length_append)
  have "n < length ?H" if "North (?H ! a) = Some n \<or> East (?H ! a) = Some n" for n
    using that grid_ptr_cell[of h R C _ _ n] unfolding cell by (auto simp: cell_of_def)
  with len show ?thesis by (simp add: cell_ok_def del: length_append)
qed

lemma has_NE_built:
  assumes "i < nat R" "j < nat C"
  shows "has_NE (h @ cells_of (length h) R C) (Some (length h + i * nat C + j)) \<longleftrightarrow>
           \<not> (i = 0 \<and> Suc j = nat C)"
  using assms
  by (auto simp: has_NE_def nth_built cell_of_def grid_ptr_def)

lemma has_NE_built_upt:
  assumes "x < nat R * nat C"
  shows "has_NE (h @ cells_of (length h) R C) (Some (length h + x)) \<longleftrightarrow> x \<noteq> nat C - 1"
proof -
  from assms have pos: "0 < nat C" by (cases "nat C") auto
  let ?i = "x div nat C" and ?j = "x mod nat C"
  have i: "?i < nat R" using assms by (rule less_mult_imp_div_less)
  have j: "?j < nat C" using pos by simp
  have x: "length h + x = length h + ?i * nat C + ?j" by simp
  have "has_NE (h @ cells_of (length h) R C) (Some (length h + x)) \<longleftrightarrow> \<not> (?i = 0 \<and> Suc ?j = nat C)"
    unfolding x by (rule has_NE_built[OF i j])
  also have "\<dots> \<longleftrightarrow> x \<noteq> nat C - 1"
  proof (cases "x < nat C")
    case True
    then show ?thesis using pos by auto
  next
    case False
    then have "?i \<noteq> 0" using pos by (simp add: div_eq_0_iff)
    with False show ?thesis by auto
  qed
  finally show ?thesis .
qed

lemma count_has_NE_built:
  assumes "1 \<le> R" "1 \<le> C"
  shows "length (filter (has_NE (h @ cells_of (length h) R C)) (AllCells (grid_of (length h) R C))) =
           nat (R * C) - 1"
proof -
  let ?H = "h @ cells_of (length h) R C"
  let ?N = "nat R * nat C"
  have "filter (has_NE ?H) (map (\<lambda>x. Some (length h + x)) [0..<?N]) =
        map (\<lambda>x. Some (length h + x)) (filter (\<lambda>x. x \<noteq> nat C - 1) [0..<?N])"
    unfolding filter_map
    by (rule arg_cong[where f = "map _"], rule filter_cong) (simp_all add: has_NE_built_upt)
  moreover have "nat C - 1 < ?N"
  proof -
    have "nat C - 1 < 1 * nat C" using assms(2) by simp
    also have "\<dots> \<le> ?N" using assms(1) by (intro mult_le_mono1) simp
    finally show ?thesis .
  qed
  ultimately have "length (filter (has_NE ?H) (AllCells (grid_of (length h) R C))) = ?N - 1"
    by (simp add: AllCells_grid_of length_filter_neq_upt)
  then show ?thesis using assms by (simp add: nat_mult_distrib)
qed

lemma BinaryTree_built:
  assumes "1 \<le> R" "1 \<le> C"
  shows "\<exists>k' h'. BinaryTree src k (grid_of (length h) R C) (h @ cells_of (length h) R C) = Inr (k', h') \<and>
     frame (h @ cells_of (length h) R C) h' \<and>
     k' = k + (nat (R * C) - 1) \<and>
     (\<forall>i j. i < nat R \<and> j < nat C \<and> \<not> (i = 0 \<and> Suc j = nat C) \<longrightarrow>
        (\<exists>n. Some n \<in> set (AllCells (grid_of (length h) R C)) \<and>
           n \<noteq> length h + i * nat C + j \<and>
           (North (cell_of (length h) R C (int i) (int j) :: ptr Cell) = Some n \<or>
            East (cell_of (length h) R C (int i) (int j) :: ptr Cell) = Some n) \<and>
           links (h' ! (length h + i * nat C + j)) (Some n) = Some True \<and>
           links (h' ! n) (Some (length h + i * nat C + j)) = Some True))"
proof -
  let ?b = "length h"
  let ?g = "grid_of ?b R C"
  let ?H = "h @ cells_of ?b R C"
  have ok: "\<forall>p\<in>set (AllCells ?g). cell_ok ?H p"
  proof
    fix p assume p: "p \<in> set (AllCells ?g)"
    then have "p \<noteq> None" using None_notin_AllCells_grid_of[of ?b R C] by metis
    then obtain a where "p = Some a" by blast
    with p show "cell_ok ?H p" using cell_ok_built[of a h R C] by simp
  qed
  from BinaryTree_loop_result[OF ok, of src k]
  obtain k' h' where loop: "BinaryTree_loop src (k, ?H) (AllCells ?g) = Inr (k', h')"
    and fr: "frame ?H h'"
    and cnt: "k' = k + length (filter (has_NE ?H) (AllCells ?g))"
    and each: "\<And>a. Some a \<in> set (AllCells ?g) \<Longrightarrow>
        (North (?H ! a) = None \<and> East (?H ! a) = None) \<or>
        (\<exists>n. (North (?H ! a) = Some n \<or> East (?H ! a) = Some n) \<and>
           links (h' ! a) (Some n) = Some True \<and> links (h' ! n) (Some a) = Some True)"
    by blast
  have "\<exists>n. Some n \<in> set (AllCells ?g) \<and>
           n \<noteq> ?b + i * nat C + j \<and>
           (North (cell_of ?b R C (int i) (int j) :: ptr Cell) = Some n \<or>
            East (cell_of ?b R C (int i) (int j) :: ptr Cell) = Some n) \<and>
           links (h' ! (?b + i * nat C + j)) (Some n) = Some True \<and>
           links (h' ! n) (Some (?b + i * nat C + j)) = Some True"
    if ij: "i < nat R" "j < nat C" "\<not> (i = 0 \<and> Suc j = nat C)" for i j
  proof -
    let ?a = "?b + i * nat C + j"
    have cell: "?H ! ?a = cell_of ?b R C (int i) (int j)" by (rule nth_built[OF ij(1,2)])
    have "i * nat C + j < nat R * nat C" by (rule rowcol_less[OF ij(1,2)])
    then have mem: "Some ?a \<in> set (AllCells ?g)" by (simp add: in_AllCells_grid_of)
    have "has_NE ?H (Some ?a)" using has_NE_built[OF ij(1,2), of h] ij(3) by simp
    then have "\<not> (North (?H ! ?a) = None \<and> East (?H ! ?a) = None)"
      by (simp add: has_NE_def)
    with each[OF mem] obtain n where n: "North (?H ! ?a) = Some n \<or> East (?H ! ?a) = Some n"
        "links (h' ! ?a) (Some n) = Some True" "links (h' ! n) (Some ?a) = Some True"
      by blast
    have "Some n \<in> set (AllCells ?g)"
      using n(1) grid_ptr_in_AllCells[of ?b R C _ _ n] unfolding cell by (auto simp: cell_of_def)
    moreover have "n \<noteq> ?a"
      using n(1) unfolding cell by (auto simp: cell_of_def grid_ptr_eq_iff[OF ij(1,2)])
    ultimately show ?thesis using n unfolding cell by blast
  qed
  moreover have "BinaryTree src k ?g ?H = Inr (k', h')"
    using loop by (simp add: BinaryTree_def)
  moreover have "k' = k + (nat (R * C) - 1)"
    using cnt count_has_NE_built[OF assms, of h] by simp
  ultimately show ?thesis using fr by blast
qed


lemma BinaryTree_1_1:
  "BinaryTree src k (grid_of (length h) 1 1) (h @ cells_of (length h) 1 1) =
     Inr (k, h @ cells_of (length h) 1 1)"
proof -
  let ?H = "h @ cells_of (length h) 1 1"
  have cells: "AllCells (grid_of (length h) 1 1) = [Some (length h)]"
    by (simp add: AllCells_grid_of)
  have cell: "?H ! length h = cell_of (length h) 1 1 0 0"
    using nth_built[of 0 1 0 1 h] by simp
  have lt: "length h < length ?H"
    by (simp add: length_built del: length_append)
  have "North (?H ! length h) = None" "East (?H ! length h) = None"
    unfolding cell by (simp_all add: cell_of_def grid_ptr_def)
  with lt have "BinaryTree_cell src (k, ?H) (Some (length h)) = Inr (k, ?H)"
    by (rule BinaryTree_cell_none)
  then show ?thesis by (simp add: BinaryTree_def cells)
qed

lemma BinaryTree_2_2_eval:
  "\<exists>h'. BinaryTree (\<lambda>k. 0) 0 (grid_of 0 2 2) (cells_of 0 2 2) = Inr (3, h') \<and>
     Linked h' (Some 0) (Some 1) = Inr True \<and> Linked h' (Some 1) (Some 0) = Inr True \<and>
     Linked h' (Some 2) (Some 0) = Inr True \<and> Linked h' (Some 0) (Some 2) = Inr True \<and>
     Linked h' (Some 3) (Some 1) = Inr True \<and> Linked h' (Some 1) (Some 3) = Inr True \<and>
     Linked h' (Some 2) (Some 3) = Inr False"
  by (simp add: BinaryTree_def AllCells_0_2_2 BinaryTree_cell_def deref_def Intn_def index_def
      Link_def LinkOneWay_def assign_def Linked_def cells_of_0_2_2 cell_of_def grid_ptr_def
      eval_nat_numeral)

text \<open>
  C2. On every grid with \<open>R \<ge> 1\<close> and \<open>C \<ge> 1\<close>, \<^verbatim>\<open>BinaryTree\<close> returns (it has no
  failure path) after one pass of its loop over the \<open>R * C\<close> cells of
  \<^verbatim>\<open>AllCells\<close>; it makes \<open>R * C - 1\<close> draws, one for each cell but the one of the
  top right corner, which has no North and no East neighbour. Afterwards every
  cell of the grid is linked with another cell of the grid, in both directions;
  except when \<open>R = 1\<close> and \<open>C = 1\<close>, where the link map of the only cell stays
  empty.
\<close>

theorem BinaryTree_links_every_cell:
  assumes "1 \<le> R" "1 \<le> C"
  shows "\<exists>g h0 k' h'. NewGrid R C h = Inr (g, h0) \<and> length (AllCells g) = nat (R * C) \<and>
     BinaryTree src k g h0 = Inr (k', h') \<and> k' = k + (nat (R * C) - 1) \<and>
     (if R = 1 \<and> C = 1 then \<forall>a. Some a \<in> set (AllCells g) \<longrightarrow> links (h' ! a) = Map.empty
      else \<forall>a. Some a \<in> set (AllCells g) \<longrightarrow>
             (\<exists>b. Some b \<in> set (AllCells g) \<and> b \<noteq> a \<and>
                Linked h' (Some a) (Some b) = Inr True \<and> Linked h' (Some b) (Some a) = Inr True))"
proof -
  let ?b = "length h"
  let ?g = "grid_of ?b R C"
  let ?H = "h @ cells_of ?b R C"
  have R0: "0 \<le> R" and C0: "0 \<le> C" using assms by simp_all
  have ng: "NewGrid R C h = Inr (?g, ?H)" by (rule NewGrid_result[OF R0 C0])
  have len: "length (AllCells ?g) = nat (R * C)"
    using R0 C0 by (simp add: AllCells_grid_of nat_mult_distrib)
  from BinaryTree_built[OF assms, of src k h]
  obtain k' h' where bt: "BinaryTree src k ?g ?H = Inr (k', h')"
    and fr: "frame ?H h'"
    and cnt: "k' = k + (nat (R * C) - 1)"
    and each: "\<And>i j. i < nat R \<Longrightarrow> j < nat C \<Longrightarrow> \<not> (i = 0 \<and> Suc j = nat C) \<Longrightarrow>
        \<exists>n. Some n \<in> set (AllCells ?g) \<and>
           n \<noteq> ?b + i * nat C + j \<and>
           (North (cell_of ?b R C (int i) (int j) :: ptr Cell) = Some n \<or>
            East (cell_of ?b R C (int i) (int j) :: ptr Cell) = Some n) \<and>
           links (h' ! (?b + i * nat C + j)) (Some n) = Some True \<and>
           links (h' ! n) (Some (?b + i * nat C + j)) = Some True"
    by blast
  have lenh: "length h' = ?b + nat R * nat C"
    using frame_length[OF fr] by (simp add: length_built del: length_append)
  have valid: "a < length h'" if "Some a \<in> set (AllCells ?g)" for a
    using that lenh by (simp add: in_AllCells_grid_of)
  have linked: "Linked h' (Some a) (Some c) = Inr True \<and> Linked h' (Some c) (Some a) = Inr True"
    if "Some a \<in> set (AllCells ?g)" "Some c \<in> set (AllCells ?g)"
      "links (h' ! a) (Some c) = Some True" "links (h' ! c) (Some a) = Some True" for a c
    using that valid by (simp add: Linked_valid)
  have final: "if R = 1 \<and> C = 1 then \<forall>a. Some a \<in> set (AllCells ?g) \<longrightarrow> links (h' ! a) = Map.empty
      else \<forall>a. Some a \<in> set (AllCells ?g) \<longrightarrow>
             (\<exists>b. Some b \<in> set (AllCells ?g) \<and> b \<noteq> a \<and>
                Linked h' (Some a) (Some b) = Inr True \<and> Linked h' (Some b) (Some a) = Inr True)"
  proof (cases "R = 1 \<and> C = 1")
    case True
    then have h': "h' = ?H" using bt BinaryTree_1_1[of src k h] by simp
    have "links (h' ! a) = Map.empty" if "Some a \<in> set (AllCells ?g)" for a
    proof -
      from that obtain i j where ij: "i < nat R" "j < nat C" "a = ?b + i * nat C + j"
        by (rule AllCells_grid_of_cases)
      show ?thesis unfolding h' ij(3) nth_built[OF ij(1,2)] by (simp add: cell_of_def)
    qed
    with True show ?thesis by simp
  next
    case False
    have "\<exists>c. Some c \<in> set (AllCells ?g) \<and> c \<noteq> a \<and>
                Linked h' (Some a) (Some c) = Inr True \<and> Linked h' (Some c) (Some a) = Inr True"
      if a: "Some a \<in> set (AllCells ?g)" for a
    proof -
      from a obtain i j where ij: "i < nat R" "j < nat C" "a = ?b + i * nat C + j"
        by (rule AllCells_grid_of_cases)
      show ?thesis
      proof (cases "i = 0 \<and> Suc j = nat C")
        case corner: False
        from each[OF ij(1,2) corner] obtain n where n: "Some n \<in> set (AllCells ?g)"
            "links (h' ! a) (Some n) = Some True" "links (h' ! n) (Some a) = Some True"
          and na: "n \<noteq> a"
          unfolding ij(3) by blast
        from linked[OF a n] n(1) na show ?thesis by blast
      next
        case corner: True
        show ?thesis
        proof (cases "j = 0")
          case j0: True
          with corner have "nat C = 1" by simp
          then have C1: "C = 1" by arith
          with False assms have R2: "1 < nat R" by simp
          have i1: "(1::nat) < nat R" "(0::nat) < nat C" "\<not> ((1::nat) = 0 \<and> Suc 0 = nat C)"
            using R2 C1 by simp_all
          from each[OF i1] obtain n where n: "Some n \<in> set (AllCells ?g)"
              "North (cell_of ?b R C (int 1) (int 0) :: ptr Cell) = Some n \<or>
               East (cell_of ?b R C (int 1) (int 0) :: ptr Cell) = Some n"
              "links (h' ! (?b + 1 * nat C + 0)) (Some n) = Some True"
              "links (h' ! n) (Some (?b + 1 * nat C + 0)) = Some True"
            by blast
          have "n = a"
            using n(2) corner j0 C1 R2 ij(3) by (auto simp: cell_of_def grid_ptr_def split: if_splits)
          moreover have "Some (?b + 1 * nat C + 0) \<in> set (AllCells ?g)"
            using R2 C1 by (simp add: in_AllCells_grid_of)
          moreover have "?b + 1 * nat C + 0 \<noteq> a"
            using corner j0 C1 ij(3) by simp
          ultimately show ?thesis
            using linked[OF a _ n(4)[unfolded \<open>n = a\<close>] n(3)[unfolded \<open>n = a\<close>]] by blast
        next
          case jpos: False
          then obtain j' where j': "j = Suc j'" by (cases j) auto
          have w: "(0::nat) < nat R" "j' < nat C" "\<not> ((0::nat) = 0 \<and> Suc j' = nat C)"
            using ij(1,2) corner j' by simp_all
          from each[OF w] obtain n where n: "Some n \<in> set (AllCells ?g)"
              "North (cell_of ?b R C (int 0) (int j') :: ptr Cell) = Some n \<or>
               East (cell_of ?b R C (int 0) (int j') :: ptr Cell) = Some n"
              "links (h' ! (?b + 0 * nat C + j')) (Some n) = Some True"
              "links (h' ! n) (Some (?b + 0 * nat C + j')) = Some True"
            by blast
          have "n = a"
            using n(2) corner j' ij(1,2,3) by (auto simp: cell_of_def grid_ptr_def split: if_splits)
          moreover have "Some (?b + 0 * nat C + j') \<in> set (AllCells ?g)"
            using w rowcol_less[OF w(1,2)] by (simp add: in_AllCells_grid_of)
          moreover have "?b + 0 * nat C + j' \<noteq> a"
            using corner j' ij(3) by simp
          ultimately show ?thesis
            using linked[OF a _ n(4)[unfolded \<open>n = a\<close>] n(3)[unfolded \<open>n = a\<close>]] by blast
        qed
      qed
    qed
    then show ?thesis unfolding if_not_P[OF False] by blast
  qed
  show ?thesis
    by (rule exI[of _ ?g], rule exI[of _ ?H], rule exI[of _ k'], rule exI[of _ h'], intro conjI)
       (fact ng len bt cnt final)+
qed

text \<open>
  The theorem on the 2 by 2 grid and on the 1 by 1 grid, with a source of zeros:
  three draws and the links 0-1, 2-0 and 3-1 on the first, no draw and no link on
  the second.
\<close>

theorem BinaryTree_links_every_cell_witness:
  "(\<exists>g h0 h'. NewGrid 2 2 ([] :: ptr heap) = Inr (g, h0) \<and>
      AllCells g = [Some 0, Some 1, Some 2, Some 3] \<and>
      BinaryTree (\<lambda>k. 0) 0 g h0 = Inr (3, h') \<and>
      Linked h' (Some 0) (Some 1) = Inr True \<and> Linked h' (Some 1) (Some 0) = Inr True \<and>
      Linked h' (Some 2) (Some 0) = Inr True \<and> Linked h' (Some 3) (Some 1) = Inr True) \<and>
   (\<exists>g h0 h'. NewGrid 1 1 ([] :: ptr heap) = Inr (g, h0) \<and> AllCells g = [Some 0] \<and>
      BinaryTree (\<lambda>k. 0) 0 g h0 = Inr (0, h') \<and> links (h' ! 0) = Map.empty)"
proof -
  from BinaryTree_links_every_cell[of 2 2 "[] :: ptr heap" "\<lambda>k. 0" 0]
  obtain g h0 k' h' where ng: "NewGrid 2 2 ([] :: ptr heap) = Inr (g, h0)"
    and bt: "BinaryTree (\<lambda>k. 0) 0 g h0 = Inr (k', h')" and k': "k' = 0 + (nat (2 * 2) - 1)"
    by auto
  from ng have g: "g = grid_of 0 2 2" and h0: "h0 = cells_of 0 2 2"
    by (simp_all add: NewGrid_2_2)
  from BinaryTree_2_2_eval bt k'
  have two: "AllCells g = [Some 0, Some 1, Some 2, Some 3] \<and>
      BinaryTree (\<lambda>k. 0) 0 g h0 = Inr (3, h') \<and>
      Linked h' (Some 0) (Some 1) = Inr True \<and> Linked h' (Some 1) (Some 0) = Inr True \<and>
      Linked h' (Some 2) (Some 0) = Inr True \<and> Linked h' (Some 3) (Some 1) = Inr True"
    unfolding g h0 by (auto simp: AllCells_0_2_2)
  from BinaryTree_links_every_cell[of 1 1 "[] :: ptr heap" "\<lambda>k. 0" 0]
  obtain g1 h1 k1 h1' where ng1: "NewGrid 1 1 ([] :: ptr heap) = Inr (g1, h1)"
    and bt1: "BinaryTree (\<lambda>k. 0) 0 g1 h1 = Inr (k1, h1')" and k1: "k1 = 0 + (nat (1 * 1) - 1)"
    and emp: "\<forall>a. Some a \<in> set (AllCells g1) \<longrightarrow> links (h1' ! a) = Map.empty"
    by auto
  from ng1 have g1: "g1 = grid_of 0 1 1"
    using NewGrid_result[of 1 1 "[] :: ptr heap"] by simp
  have cells1: "AllCells g1 = [Some 0]"
    by (simp add: g1 AllCells_grid_of)
  with emp have "links (h1' ! 0) = Map.empty" by simp
  with ng ng1 two bt1 k1 cells1 show ?thesis by auto
qed

section \<open>Properties of Sidewinder\<close>



lemma shouldCloseOut_value:
  "shouldCloseOut src k c =
     Inr (East c = None \<or> (North c \<noteq> None \<and> src k mod 2 = 0),
          if East c = None \<or> North c = None then k else Suc k)"
  by (auto simp: shouldCloseOut_def Intn_pos Let_def)


lemma Sidewinder_cell_close:
  assumes "a < length h" "East (h ! a) = None \<or> (North (h ! a) \<noteq> None \<and> src k mod 2 = 0)"
    and "k1 = (if East (h ! a) = None \<or> North (h ! a) = None then k else Suc k)"
    and "(run @ [Some a]) ! (src k1 mod (length run + 1)) = Some b" "b < length h"
  shows "Sidewinder_cell src (k, run, h) (Some a) =
     (case North (h ! b) of
        None \<Rightarrow> Inr (Suc k1, run @ [Some a], h)
      | Some n \<Rightarrow>
          (case RectangleCell_Link h (Some b) (toCell (Some n)) of
             Inl e \<Rightarrow> Inl e
           | Inr h1 \<Rightarrow> Inr (Suc k1, run @ [Some a], h1)))"
proof -
  have sc: "shouldCloseOut src k (h ! a) = Inr (True, k1)"
    using assms(2,3) by (simp add: shouldCloseOut_value)
  have draw: "Intn src k1 (int (length (run @ [Some a]))) = Inr (int (src k1 mod (length run + 1)), Suc k1)"
    by (simp add: Intn_pos zmod_int add.commute)
  have "int (src k1 mod (length run + 1)) < int (length (run @ [Some a]))"
    by (simp add: zmod_int)
  then have idx: "index (run @ [Some a]) (int (src k1 mod (length run + 1))) = Inr (Some b)"
    using assms(4) by (simp add: index_def)
  have member: "deref h (Some b) = Inr (h ! b)"
    using assms(5) by (simp add: deref_def)
  have cell: "deref h (Some a) = Inr (h ! a)"
    using assms(1) by (simp add: deref_def)
  show ?thesis
    unfolding Sidewinder_cell_def
    by (simp only: prod.case Let_def cell sc draw idx member sum.case if_True)
       (simp split: option.splits)
qed

lemma Sidewinder_cell_east:
  assumes "a < length h" "\<not> (East (h ! a) = None \<or> (North (h ! a) \<noteq> None \<and> src k mod 2 = 0))"
    and "k1 = (if East (h ! a) = None \<or> North (h ! a) = None then k else Suc k)"
  shows "Sidewinder_cell src (k, run, h) (Some a) =
     (case RectangleCell_Link h (Some a) (toCell (East (h ! a))) of
        Inl e \<Rightarrow> Inl e
      | Inr h1 \<Rightarrow> Inr (k1, run @ [Some a], h1))"
proof -
  have sc: "shouldCloseOut src k (h ! a) = Inr (False, k1)"
    using assms(2,3) by (simp add: shouldCloseOut_value)
  have cell: "deref h (Some a) = Inr (h ! a)"
    using assms(1) by (simp add: deref_def)
  show ?thesis
    unfolding Sidewinder_cell_def
    by (simp only: prod.case Let_def cell sc sum.case if_False)
qed


text \<open>
  \<^verbatim>\<open>Sidewinder\<close> has no failure path on a new grid: for every source it returns,
  and the store it leaves has the cells of the grid with the neighbours they had.
\<close>

lemma RectangleCell_Link_frame:
  assumes "a < length h" "n < length h"
  shows "\<exists>h'. RectangleCell_Link h (Some a) (toCell (Some n)) = Inr h' \<and> frame h h'"
proof -
  from LinkOneWay_frame[OF assms(1), of "toCell (Some n)"]
  obtain h1 where h1: "LinkOneWay h (Some a) (toCell (Some n)) = Inr h1" "frame h h1" by blast
  then have "n < length h1" using assms(2) frame_length by metis
  from LinkOneWay_frame[OF this, of "Some (CellBaseP (Some a))"]
  obtain h2 where h2: "LinkOneWay h1 (Some n) (Some (CellBaseP (Some a))) = Inr h2" "frame h1 h2"
    by blast
  have "RectangleCell_Link h (Some a) (toCell (Some n)) = Inr h2"
    using h1(1) h2(1)
    by (simp add: RectangleCell_Link_def CellBase_Link_def Cell_LinkOneWay_def toCell_def)
  moreover have "frame h h2" using h1(2) h2(2) by (rule frame_trans)
  ultimately show ?thesis by blast
qed

lemma Sidewinder_cell_returns:
  assumes "cell_ok h (Some a)" "\<forall>p\<in>set run. cell_ok h p"
  shows "\<exists>k2 h'. Sidewinder_cell src (k, run, h) (Some a) = Inr (k2, run @ [Some a], h') \<and> frame h h'"
proof -
  from assms(1) have a: "a < length h"
    and ne: "\<And>n. North (h ! a) = Some n \<or> East (h ! a) = Some n \<Longrightarrow> n < length h"
    by (auto simp: cell_ok_def)
  define k1 where "k1 = (if East (h ! a) = None \<or> North (h ! a) = None then k else Suc k)"
  show ?thesis
  proof (cases "East (h ! a) = None \<or> (North (h ! a) \<noteq> None \<and> src k mod 2 = 0)")
    case True
    let ?i = "src k1 mod (length run + 1)"
    have "?i < length (run @ [Some a])" by simp
    then have "(run @ [Some a]) ! ?i \<in> set (run @ [Some a])" by (rule nth_mem)
    then have "cell_ok h ((run @ [Some a]) ! ?i)" using assms by auto
    then obtain b where b: "(run @ [Some a]) ! ?i = Some b" "b < length h"
      and nb: "\<And>n. North (h ! b) = Some n \<Longrightarrow> n < length h"
      by (auto simp: cell_ok_def)
    note step = Sidewinder_cell_close[where src=src and k=k, OF a True k1_def b]
    show ?thesis
    proof (cases "North (h ! b)")
      case None
      with step show ?thesis using frame_refl[of h] by auto
    next
      case (Some n)
      from RectangleCell_Link_frame[OF b(2) nb[OF Some]]
      obtain h' where "RectangleCell_Link h (Some b) (toCell (Some n)) = Inr h'" "frame h h'"
        by blast
      with step Some show ?thesis by auto
    qed
  next
    case False
    then obtain e where e: "East (h ! a) = Some e" by auto
    from RectangleCell_Link_frame[OF a ne[of e]] e
    obtain h' where "RectangleCell_Link h (Some a) (toCell (Some e)) = Inr h'" "frame h h'"
      by blast
    with Sidewinder_cell_east[where src=src and k=k and run=run, OF a False k1_def] e
    show ?thesis by auto
  qed
qed

lemma Sidewinder_cells_returns:
  assumes "\<forall>p\<in>set row. cell_ok h p" "\<forall>p\<in>set run. cell_ok h p"
  shows "\<exists>k' h'. Sidewinder_cells src (k, run, h) row = Inr (k', run @ row, h') \<and> frame h h'"
  using assms
proof (induction row arbitrary: k run h)
  case Nil
  show ?case using frame_refl[of h] by simp
next
  case (Cons p rest)
  then obtain a where a: "p = Some a" by (auto simp: cell_ok_def)
  from Cons.prems a have "cell_ok h (Some a)" by simp
  from Sidewinder_cell_returns[OF this Cons.prems(2), of src k]
  obtain k1 h1 where step: "Sidewinder_cell src (k, run, h) (Some a) = Inr (k1, run @ [Some a], h1)"
    and f1: "frame h h1" by blast
  have ok_rest: "\<forall>p\<in>set rest. cell_ok h1 p"
    using Cons.prems(1) cell_ok_frame[OF f1] by simp
  have ok_run: "\<forall>p\<in>set (run @ [Some a]). cell_ok h1 p"
    using Cons.prems a cell_ok_frame[OF f1] by simp
  from Cons.IH[OF ok_rest ok_run, of k1]
  obtain k' h' where rest: "Sidewinder_cells src (k1, run @ [Some a], h1) rest =
      Inr (k', (run @ [Some a]) @ rest, h')" and f2: "frame h1 h'" by blast
  have "Sidewinder_cells src (k, run, h) (p # rest) = Inr (k', run @ p # rest, h')"
    using step rest a by simp
  moreover have "frame h h'" using f1 f2 by (rule frame_trans)
  ultimately show ?case by blast
qed

lemma Sidewinder_rows_returns:
  assumes "\<forall>row\<in>set rows. \<forall>p\<in>set row. cell_ok h p"
  shows "\<exists>k' h'. Sidewinder_rows src (k, h) rows = Inr (k', h') \<and> frame h h'"
  using assms
proof (induction rows arbitrary: k h)
  case Nil
  show ?case using frame_refl[of h] by simp
next
  case (Cons row rest)
  then have "\<forall>p\<in>set row. cell_ok h p" by simp
  from Sidewinder_cells_returns[OF this, of "[]" src k]
  obtain k1 h1 where row: "Sidewinder_cells src (k, [], h) row = Inr (k1, [] @ row, h1)"
    and f1: "frame h h1" by auto
  have "\<forall>row\<in>set rest. \<forall>p\<in>set row. cell_ok h1 p"
    using Cons.prems cell_ok_frame[OF f1] by simp
  from Cons.IH[OF this, of k1]
  obtain k' h' where rest: "Sidewinder_rows src (k1, h1) rest = Inr (k', h')"
    and f2: "frame h1 h'" by blast
  have "Sidewinder_rows src (k, h) (row # rest) = Inr (k', h')"
    using row rest by simp
  moreover have "frame h h'" using f1 f2 by (rule frame_trans)
  ultimately show ?case by blast
qed

lemma Sidewinder_returns:
  assumes "0 \<le> R" "0 \<le> C"
  shows "\<exists>g h0 k' h'. NewGrid R C h = Inr (g, h0) \<and> Sidewinder src k g h0 = Inr (k', h') \<and>
           frame h0 h'"
proof -
  let ?g = "grid_of (length h) R C"
  let ?H = "h @ cells_of (length h) R C"
  have "\<forall>row\<in>set (AllRows ?g). \<forall>p\<in>set row. cell_ok ?H p"
  proof (intro ballI)
    fix row p assume "row \<in> set (AllRows ?g)" "p \<in> set row"
    then have p: "p \<in> set (AllCells ?g)" by (auto simp: AllRows_def AllCells_def)
    then have "p \<noteq> None" using None_notin_AllCells_grid_of[of "length h" R C] by metis
    then obtain a where "p = Some a" by blast
    with p show "cell_ok ?H p" using cell_ok_built[of a h R C] by simp
  qed
  from Sidewinder_rows_returns[OF this, of src k]
  show ?thesis
    using NewGrid_result[OF assms, of h] by (auto simp: Sidewinder_def)
qed

text \<open>
  The link of the interface variant is one-sided for \<^verbatim>\<open>Linked\<close>: the neighbour
  stores the \<^verbatim>\<open>*CellBase\<close> of the caller, a key that differs from the caller's
  \<^verbatim>\<open>*RectangleCell\<close>, so \<^verbatim>\<open>B.Linked(A)\<close> stays false after \<^verbatim>\<open>A.Link(B)\<close>. The
  symmetry of C5 is a property of the struct \<^verbatim>\<open>Cell\<close> only.
\<close>

lemma RectangleCell_Link_one_sided:
  assumes "a < length h" "n < length h" "a \<noteq> n" "links (h ! n) (toCell (Some a)) = None"
  shows "\<exists>h'. RectangleCell_Link h (Some a) (toCell (Some n)) = Inr h' \<and>
           RectangleCell_Linked h' (Some a) (toCell (Some n)) = Inr True \<and>
           links (h' ! n) (Some (CellBaseP (Some a))) = Some True \<and>
           RectangleCell_Linked h' (Some n) (toCell (Some a)) = Inr False"
  using assms
  by (simp add: RectangleCell_Link_def CellBase_Link_def Cell_LinkOneWay_def toCell_def
      LinkOneWay_valid RectangleCell_Linked_def Linked_def deref_def nth_list_update)




text \<open>
  Within a row the slice \<^verbatim>\<open>run\<close> only grows: whichever branch a step takes, it
  returns \<^verbatim>\<open>run\<close> with the cell appended, so at the end of a row \<^verbatim>\<open>run\<close> is the
  whole row.
\<close>

lemma Sidewinder_cell_run:
  "Sidewinder_cell src (k, run, h) cell = Inr (k', run', h') \<Longrightarrow> run' = run @ [cell]"
  by (auto simp: Sidewinder_cell_def Let_def split: sum.splits if_splits prod.splits)

lemma Sidewinder_cells_run:
  "Sidewinder_cells src (k, run, h) row = Inr (k', run', h') \<Longrightarrow> run' = run @ row"
proof (induction row arbitrary: k run h)
  case Nil
  then show ?case by simp
next
  case (Cons cell rest)
  then obtain k1 run1 h1 where step: "Sidewinder_cell src (k, run, h) cell = Inr (k1, run1, h1)"
    and rest: "Sidewinder_cells src (k1, run1, h1) rest = Inr (k', run', h')"
    by (auto split: sum.splits)
  from Sidewinder_cell_run[OF step] Cons.IH[OF rest] show ?case by simp
qed

lemma grid_0_2_2: "AllRows (grid_of 0 2 2) = [[Some 0, Some 1], [Some 2, Some 3]]"
  by (simp add: AllRows_def grid_of_def eval_nat_numeral)

lemmas sw_eval = Sidewinder_cell_def shouldCloseOut_def Intn_def index_def deref_def
  RectangleCell_Link_def CellBase_Link_def Cell_LinkOneWay_def LinkOneWay_def assign_def
  toCell_def cells_of_0_2_2 cell_of_def grid_ptr_def Let_def




text \<open>
  C1 fails on the code. On the 2 by 2 grid with a source whose draws are all 0, the
  second row (cells 2 and 3) goes as follows. Cell 2 closes out by the coin, with
  \<^verbatim>\<open>run\<close> = [2]. The next step starts from this \<^verbatim>\<open>run\<close>, not from an empty one:
  cell 3 closes out at the eastern boundary with \<^verbatim>\<open>run\<close> = [2, 3], so cell 2 is in
  two closed runs, and the member drawn from it is cell 2 again. When
  \<^verbatim>\<open>Sidewinder\<close> returns, the link map of cell 3 is empty and no link map holds
  cell 3: the cell cannot be reached.
\<close>

theorem Sidewinder_run_never_emptied:
  "\<exists>g h0. NewGrid 2 2 ([] :: CellI heap) = Inr (g, h0) \<and>
     AllRows g = [[Some 0, Some 1], [Some 2, Some 3]] \<and>
     (\<exists>k1 run1 h1. Sidewinder_cells (\<lambda>k. 0) (0, [], h0) [Some 0, Some 1] = Inr (k1, run1, h1) \<and>
       (\<exists>k2 h2. shouldCloseOut (\<lambda>k. 0) k1 (h1 ! 2) = Inr (True, Suc k1) \<and>
          Sidewinder_cell (\<lambda>k. 0) (k1, [], h1) (Some 2) = Inr (k2, [Some 2], h2) \<and>
          (\<exists>k3 h3. shouldCloseOut (\<lambda>k. 0) k2 (h2 ! 3) = Inr (True, k2) \<and>
             Sidewinder_cell (\<lambda>k. 0) (k2, [Some 2], h2) (Some 3) = Inr (k3, [Some 2, Some 3], h3) \<and>
             Sidewinder (\<lambda>k. 0) 0 g h0 = Inr (k3, h3) \<and>
             links (h3 ! 0) = [toCell (Some 1) \<mapsto> True, Some (CellBaseP (Some 2)) \<mapsto> True] \<and>
             links (h3 ! 1) = [Some (CellBaseP (Some 0)) \<mapsto> True] \<and>
             links (h3 ! 2) = [toCell (Some 0) \<mapsto> True] \<and>
             links (h3 ! 3) = Map.empty)))"
  unfolding NewGrid_2_2
  by (simp add: grid_0_2_2 Sidewinder_def sw_eval eval_nat_numeral)

end
